theory Spec2Isabelle
  imports Main
begin

section \<open>The lock of one key (class Lock of hw4/student.py)\<close>

text \<open>
  A transaction handler is a Python object; the lock's lists hold references to handlers
  and compare them by identity (\<^verbatim>\<open>in\<close>, \<^verbatim>\<open>is\<close>). A reference is a natural number here.
\<close>

type_synonym tref = nat

datatype lock_mode = ExclusiveLock | SharedLock

text \<open>
  The field \<^verbatim>\<open>mode\<close> is \<^verbatim>\<open>None\<close> after the last holder has left; the field
  \<^verbatim>\<open>request_queue\<close> is \<^verbatim>\<open>None\<close> until the first request is queued. An entry of the queue
  is a \<^verbatim>\<open>RequestLock\<close> object: a transaction and the mode it asks for.
\<close>

record lock =
  transactions :: "tref list"
  mode :: "lock_mode option"
  request_queue :: "(tref \<times> lock_mode) list option"

text \<open>\<^verbatim>\<open>Lock.__init__(transaction, mode)\<close>, with the default \<^verbatim>\<open>request_queue=None\<close>.\<close>

definition Lock_init :: "tref \<Rightarrow> lock_mode \<Rightarrow> lock" where
  "Lock_init t m = \<lparr>transactions = [t], mode = Some m, request_queue = None\<rparr>"

definition current_transactions :: "lock \<Rightarrow> tref list" where
  "current_transactions l = transactions l"

definition first_current_transaction :: "lock \<Rightarrow> tref option" where
  "first_current_transaction l =
     (case current_transactions l of [] \<Rightarrow> None | t # _ \<Rightarrow> Some t)"

definition hold_lock :: "lock \<Rightarrow> tref \<Rightarrow> lock_mode \<Rightarrow> bool" where
  "hold_lock l t m = (t \<in> set (transactions l) \<and> mode l = Some m)"

definition can_acquire_lock :: "lock \<Rightarrow> tref \<Rightarrow> lock_mode \<Rightarrow> bool" where
  "can_acquire_lock l t m =
     (if length (transactions l) = 0 then True
      else if mode l = Some ExclusiveLock then t \<in> set (transactions l)
      else if m = SharedLock then True
      else if length (transactions l) = 1 \<and> t \<in> set (transactions l)
        then m = ExclusiveLock
      else False)"

text \<open>
  The inner loop of \<^verbatim>\<open>_append_request\<close>: the first entry of the transaction whose mode is
  \<^verbatim>\<open>SharedLock\<close> gets the new mode and the loop returns \<^verbatim>\<open>True\<close>; entries of the
  transaction in \<^verbatim>\<open>ExclusiveLock\<close> mode are passed over.
\<close>

fun has_request_and_update ::
  "tref \<Rightarrow> lock_mode \<Rightarrow> (tref \<times> lock_mode) list \<Rightarrow> bool \<times> (tref \<times> lock_mode) list" where
  "has_request_and_update t m [] = (False, [])"
| "has_request_and_update t m (r # rs) =
     (if fst r = t \<and> snd r = SharedLock then (True, (fst r, m) # rs)
      else (case has_request_and_update t m rs of (b, rs') \<Rightarrow> (b, r # rs')))"

text \<open>\<^verbatim>\<open>_append_request\<close>; a queue that is \<^verbatim>\<open>None\<close> or empty is falsy and is replaced.\<close>

definition append_request :: "lock \<Rightarrow> tref \<Rightarrow> lock_mode \<Rightarrow> lock" where
  "append_request l t m =
     (case request_queue l of
        Some (r # rs) \<Rightarrow>
          (case has_request_and_update t m (r # rs) of
             (True, q') \<Rightarrow> l\<lparr>request_queue := Some q'\<rparr>
           | (False, q') \<Rightarrow> l\<lparr>request_queue := Some (q' @ [(t, m)])\<rparr>)
      | _ \<Rightarrow> l\<lparr>request_queue := Some [(t, m)]\<rparr>)"

text \<open>\<^verbatim>\<open>_grant_request\<close>: pop the head of the queue, append it to the holders.\<close>

definition grant_request :: "lock \<Rightarrow> lock" where
  "grant_request l =
     (case request_queue l of
        Some (r # rs) \<Rightarrow>
          l\<lparr>transactions := transactions l @ [fst r], mode := Some (snd r),
            request_queue := Some rs\<rparr>
      | _ \<Rightarrow> l)"

text \<open>
  \<^verbatim>\<open>request_lock\<close> returns the answer and the lock as it has been mutated.
  \<^verbatim>\<open>list.remove\<close> deletes the first occurrence, which is \<^const>\<open>remove1\<close>.
\<close>

definition request_lock :: "lock \<Rightarrow> tref \<Rightarrow> lock_mode \<Rightarrow> bool \<times> lock" where
  "request_lock l t m =
     (if can_acquire_lock l t m then
        (True, l\<lparr>transactions :=
                    (if t \<notin> set (transactions l) then transactions l @ [t]
                     else transactions l),
                  mode := Some m\<rparr>)
      else
        (False, append_request
                  (if t \<in> set (transactions l)
                   then l\<lparr>transactions := remove1 t (transactions l)\<rparr> else l) t m))"

definition release_lock :: "lock \<Rightarrow> tref \<Rightarrow> lock" where
  "release_lock l t =
     (let l1 = (if t \<in> set (transactions l)
                then l\<lparr>transactions := remove1 t (transactions l)\<rparr> else l)
      in if length (transactions l1) = 0 then grant_request (l1\<lparr>mode := None\<rparr>) else l1)"

subsection \<open>The states a lock can reach\<close>

datatype lock_op = Request tref lock_mode | Release tref

fun lock_step :: "lock \<Rightarrow> lock_op \<Rightarrow> lock" where
  "lock_step l (Request t m) = snd (request_lock l t m)"
| "lock_step l (Release t) = release_lock l t"

definition lock_run :: "lock \<Rightarrow> lock_op list \<Rightarrow> lock" where
  "lock_run l ops = foldl lock_step l ops"

definition the_queue :: "lock \<Rightarrow> (tref \<times> lock_mode) list" where
  "the_queue l = (case request_queue l of None \<Rightarrow> [] | Some q \<Rightarrow> q)"

text \<open>
  Two observations of a run, read off the length of the queue at every step: how many
  entries have left the queue, and which transactions have got a new entry, in the order
  of the requests.
\<close>

fun queue_pops :: "lock \<Rightarrow> lock_op list \<Rightarrow> nat" where
  "queue_pops l [] = 0"
| "queue_pops l (x # xs) =
     (length (the_queue l) - length (the_queue (lock_step l x)))
       + queue_pops (lock_step l x) xs"

fun queue_arrivals :: "lock \<Rightarrow> lock_op list \<Rightarrow> tref list" where
  "queue_arrivals l [] = []"
| "queue_arrivals l (Request t m # xs) =
     (if length (the_queue l) < length (the_queue (lock_step l (Request t m)))
      then [t] else []) @ queue_arrivals (lock_step l (Request t m)) xs"
| "queue_arrivals l (Release t # xs) = queue_arrivals (lock_step l (Release t)) xs"

text \<open>
  The invariant of a lock: the two parts the specification names, and what makes them
  inductive (no holder twice, a mode whenever there is a holder, nobody waiting for a
  lock that nobody holds).
\<close>

definition lock_inv :: "lock \<Rightarrow> bool" where
  "lock_inv l =
     ((mode l = Some ExclusiveLock \<longrightarrow> length (transactions l) = 1) \<and>
      (transactions l = [] \<longrightarrow> mode l = None) \<and>
      (mode l = None \<longrightarrow> transactions l = []) \<and>
      distinct (transactions l) \<and>
      (transactions l = [] \<longrightarrow> the_queue l = []))"

section \<open>The transaction handler (class TransactionHandler)\<close>

text \<open>
  The closures \<^verbatim>\<open>lambda: self.perform_put(key, value)\<close> and
  \<^verbatim>\<open>lambda: self.perform_get(key)\<close> that a blocked handler keeps in its desired lock.
\<close>

datatype ('k, 'v) retry_op = Retry_put 'k 'v | Retry_get 'k

text \<open>
  What a request returns to its caller: one of the message strings of the source, or a
  value read from the store.
\<close>

datatype 'v reply = Msg string | Val 'v

record ('k, 'v) handler =
  acquired_locks :: "'k list"
  desired_lock :: "('k \<times> lock_mode \<times> ('k, 'v) retry_op) option"
  xid :: int
  undo_log :: "('k \<times> 'v option) list"

text \<open>
  Modelled from the spec: kvstore.py (the classes \<^verbatim>\<open>InMemoryKVStore\<close> and
  \<^verbatim>\<open>DBMStore\<close>) is not among the sources. The specification gives the contract
  \<^verbatim>\<open>get(key) -> value | absent\<close>, \<^verbatim>\<open>put(key, value) -> unit\<close>, both infallible and
  immediately consistent. The store is therefore the function from a key to what
  \<^verbatim>\<open>get\<close> returns for it, \<^verbatim>\<open>None\<close> standing for absent; \<^verbatim>\<open>put\<close> of \<^verbatim>\<open>None\<close>
  (which \<^verbatim>\<open>abort\<close> issues for a key that had no value) makes \<^verbatim>\<open>get\<close> return
  \<^verbatim>\<open>None\<close> again.
\<close>

type_synonym ('k, 'v) kvstore = "'k \<Rightarrow> 'v option"

definition store_get :: "('k, 'v) kvstore \<Rightarrow> 'k \<Rightarrow> 'v option" where
  "store_get s k = s k"

definition store_put :: "('k, 'v) kvstore \<Rightarrow> 'k \<Rightarrow> 'v option \<Rightarrow> ('k, 'v) kvstore" where
  "store_put s k v = s(k := v)"

text \<open>
  The lock table is a Python dictionary from keys to \<^verbatim>\<open>Lock\<close> objects, shared by all
  handlers and the coordinator. It is an association list in the order in which
  \<^verbatim>\<open>items()\<close> yields the entries; a new key goes to the end, an assignment to a key that
  is present keeps its place.
\<close>

type_synonym 'k lock_table = "('k \<times> lock) list"

primrec dict_set :: "'k \<Rightarrow> lock \<Rightarrow> 'k lock_table \<Rightarrow> 'k lock_table" where
  "dict_set k v [] = [(k, v)]"
| "dict_set k v (p # ps) = (if fst p = k then (k, v) # ps else p # dict_set k v ps)"

definition dict_get :: "'k lock_table \<Rightarrow> 'k \<Rightarrow> lock option" where
  "dict_get d k = map_of d k"

text \<open>
  The whole state: the shared lock table, the shared store, and the fields of every
  handler object, by reference.
\<close>

record ('k, 'v) state =
  lock_table :: "'k lock_table"
  store :: "('k, 'v) kvstore"
  handlers :: "tref \<Rightarrow> ('k, 'v) handler"

text \<open>\<^verbatim>\<open>TransactionHandler.__init__(lock_table, xid, store)\<close> for the object \<open>self\<close>.\<close>

definition TransactionHandler_init ::
  "('k, 'v) state \<Rightarrow> tref \<Rightarrow> int \<Rightarrow> ('k, 'v) state" where
  "TransactionHandler_init st self x =
     st\<lparr>handlers := (handlers st)(self :=
          \<lparr>acquired_locks = [], desired_lock = None, xid = x, undo_log = []\<rparr>)\<rparr>"

text \<open>
  The state before any request: an empty lock table, an empty store, no handler created
  yet.
\<close>

definition initial_state :: "('k, 'v) state" where
  "initial_state =
     \<lparr>lock_table = [], store = (\<lambda>_. None),
      handlers = (\<lambda>_. \<lparr>acquired_locks = [], desired_lock = None, xid = 0,
                           undo_log = []\<rparr>)\<rparr>"

definition USER :: int where "USER = 0"
definition DEADLOCK :: int where "DEADLOCK = 1"

definition perform_put ::
  "('k, 'v) state \<Rightarrow> tref \<Rightarrow> 'k \<Rightarrow> 'v \<Rightarrow> 'v reply option \<times> ('k, 'v) state" where
  "perform_put st self key val =
     (let h = handlers st self;
          lt1 = (case dict_get (lock_table st) key of
                   None \<Rightarrow> dict_set key (Lock_init self ExclusiveLock) (lock_table st)
                 | Some _ \<Rightarrow> lock_table st);
          l = (case dict_get (lock_table st) key of
                 None \<Rightarrow> Lock_init self ExclusiveLock
               | Some l0 \<Rightarrow> l0);
          (granted, l') = request_lock l self ExclusiveLock;
          st1 = st\<lparr>lock_table := dict_set key l' lt1\<rparr>
      in if granted then
           (let old_value = store_get (store st) key
            in (Some (Msg ''Success''),
                st1\<lparr>store := store_put (store st) key (Some val),
                    handlers := (handlers st)(self :=
                      h\<lparr>undo_log := undo_log h @ [(key, old_value)],
                        acquired_locks := acquired_locks h @ [key]\<rparr>)\<rparr>))
         else
           (None,
            st1\<lparr>handlers := (handlers st)(self :=
              h\<lparr>desired_lock := Some (key, ExclusiveLock, Retry_put key val)\<rparr>)\<rparr>))"

definition perform_get ::
  "('k, 'v) state \<Rightarrow> tref \<Rightarrow> 'k \<Rightarrow> 'v reply option \<times> ('k, 'v) state" where
  "perform_get st self key =
     (let h = handlers st self;
          lt1 = (case dict_get (lock_table st) key of
                   None \<Rightarrow> dict_set key (Lock_init self SharedLock) (lock_table st)
                 | Some _ \<Rightarrow> lock_table st);
          l = (case dict_get (lock_table st) key of
                 None \<Rightarrow> Lock_init self SharedLock
               | Some l0 \<Rightarrow> l0);
          (granted, l') = request_lock l self SharedLock;
          st1 = st\<lparr>lock_table := dict_set key l' lt1\<rparr>
      in if granted then
           (case store_get (store st) key of
              None \<Rightarrow> Some (Msg ''No such key'')
            | Some v \<Rightarrow> Some (Val v),
            st1\<lparr>handlers := (handlers st)(self :=
              h\<lparr>acquired_locks := acquired_locks h @ [key]\<rparr>)\<rparr>)
         else
           (None,
            st1\<lparr>handlers := (handlers st)(self :=
              h\<lparr>desired_lock := Some (key, SharedLock, Retry_get key)\<rparr>)\<rparr>))"

text \<open>
  A transaction that issues one put after the other, each answered \<^verbatim>\<open>'Success'\<close>; the
  result is \<^const>\<open>None\<close> as soon as a put is not granted.
\<close>

fun put_all :: "('k, 'v) state \<Rightarrow> tref \<Rightarrow> ('k \<times> 'v) list \<Rightarrow> ('k, 'v) state option" where
  "put_all st self [] = Some st"
| "put_all st self ((k, v) # kvs) =
     (case perform_put st self k v of
        (Some _, st') \<Rightarrow> put_all st' self kvs
      | (None, _) \<Rightarrow> None)"

text \<open>
  A transaction that waits in no queue of the lock table, in a table whose locks list no
  holder twice.
\<close>

definition not_queued :: "tref \<Rightarrow> 'k lock_table \<Rightarrow> bool" where
  "not_queued self lt =
     list_all (\<lambda>(k, l). distinct (transactions l) \<and> self \<notin> fst ` set (the_queue l)) lt"

text \<open>
  The loop of \<^verbatim>\<open>release_and_grant_locks\<close>. \<^verbatim>\<open>self._lock_table.get(l)\<close> is \<^verbatim>\<open>None\<close> for
  a key without an entry, and the call of \<^verbatim>\<open>release_lock\<close> on it raises
  \<^verbatim>\<open>AttributeError\<close>: the result \<^const>\<open>None\<close> here.
\<close>

fun release_loop :: "tref \<Rightarrow> 'k list \<Rightarrow> 'k lock_table \<Rightarrow> 'k lock_table option" where
  "release_loop self [] lt = Some lt"
| "release_loop self (k # ks) lt =
     (case dict_get lt k of
        None \<Rightarrow> None
      | Some l \<Rightarrow> release_loop self ks (dict_set k (release_lock l self) lt))"

definition release_and_grant_locks ::
  "('k, 'v) state \<Rightarrow> tref \<Rightarrow> ('k, 'v) state option" where
  "release_and_grant_locks st self =
     (case release_loop self (acquired_locks (handlers st self)) (lock_table st) of
        None \<Rightarrow> None
      | Some lt' \<Rightarrow>
          Some (st\<lparr>lock_table := lt',
                   handlers := (handlers st)(self :=
                     (handlers st self)\<lparr>acquired_locks := []\<rparr>)\<rparr>))"

definition commit :: "('k, 'v) state \<Rightarrow> tref \<Rightarrow> ('v reply \<times> ('k, 'v) state) option" where
  "commit st self =
     (case release_and_grant_locks st self of
        None \<Rightarrow> None
      | Some st' \<Rightarrow> Some (Msg ''Transaction Completed'', st'))"

text \<open>
  The loop of \<^verbatim>\<open>abort\<close>: while the undo log is not empty, pop its last entry and put the
  recorded value back. It returns the log that is left and the store.
\<close>

function undo_loop ::
  "('k \<times> 'v option) list \<Rightarrow> ('k, 'v) kvstore \<Rightarrow> ('k \<times> 'v option) list \<times> ('k, 'v) kvstore" where
  "undo_loop log s =
     (if length log > 0
      then undo_loop (butlast log) (store_put s (fst (last log)) (snd (last log)))
      else (log, s))"
  by pat_completeness auto
termination
  by (relation "measure (\<lambda>(log, s). length log)") auto

declare undo_loop.simps [simp del]

definition abort ::
  "('k, 'v) state \<Rightarrow> tref \<Rightarrow> int \<Rightarrow> ('v reply \<times> ('k, 'v) state) option" where
  "abort st self abort_mode =
     (let h = handlers st self;
          (log', s') = undo_loop (undo_log h) (store st);
          st1 = st\<lparr>store := s', handlers := (handlers st)(self := h\<lparr>undo_log := log'\<rparr>)\<rparr>
      in case release_and_grant_locks st1 self of
           None \<Rightarrow> None
         | Some st2 \<Rightarrow>
             Some (if abort_mode = USER then Msg ''User Abort'' else Msg ''Deadlock Abort'',
                   st2))"

text \<open>
  The test \<^verbatim>\<open>if v:\<close> of \<^verbatim>\<open>check_lock\<close> is Python's truth value of \<open>v\<close>: false for
  \<^verbatim>\<open>None\<close>, for an empty string and for any other falsy object. What the truth value of
  a stored value is depends on the type of the values, which the sources leave open; it
  is the parameter \<open>truthy\<close>.
\<close>

fun truth_value :: "('v \<Rightarrow> bool) \<Rightarrow> 'v reply option \<Rightarrow> bool" where
  "truth_value truthy None = False"
| "truth_value truthy (Some (Msg s)) = (s \<noteq> [])"
| "truth_value truthy (Some (Val v)) = truthy v"

fun run_retry ::
  "('k, 'v) state \<Rightarrow> tref \<Rightarrow> ('k, 'v) retry_op \<Rightarrow> 'v reply option \<times> ('k, 'v) state" where
  "run_retry st self (Retry_put key val) = perform_put st self key val"
| "run_retry st self (Retry_get key) = perform_get st self key"

text \<open>
  \<^verbatim>\<open>check_lock\<close>. The outer \<^const>\<open>None\<close> is the \<^verbatim>\<open>AttributeError\<close> of
  \<^verbatim>\<open>lock.hold_lock\<close> when the lock table has no entry for the desired key.
\<close>

definition check_lock ::
  "('v \<Rightarrow> bool) \<Rightarrow> ('k, 'v) state \<Rightarrow> tref \<Rightarrow> ('v reply option \<times> ('k, 'v) state) option" where
  "check_lock truthy st self =
     (case desired_lock (handlers st self) of
        None \<Rightarrow> Some (None, st)
      | Some (key, lock_mode, op) \<Rightarrow>
          (case dict_get (lock_table st) key of
             None \<Rightarrow> None
           | Some l \<Rightarrow>
               if hold_lock l self lock_mode then
                 (case run_retry st self op of
                    (v, st1) \<Rightarrow>
                      if truth_value truthy v
                      then Some (v, st1\<lparr>handlers := (handlers st1)(self :=
                                          (handlers st1 self)\<lparr>desired_lock := None\<rparr>)\<rparr>)
                      else Some (v, st1))
               else Some (None, st)))"

section \<open>The transaction coordinator (class TransactionCoordinator)\<close>

text \<open>
  \<^verbatim>\<open>get_desired_key_tranc\<close>: \<^const>\<open>None\<close> is the exception raised when the lock has no
  holder (\<^verbatim>\<open>None._desired_lock\<close>) or the holder has no desired lock
  (\<^verbatim>\<open>None[0]\<close>).
\<close>

definition get_desired_key_tranc :: "('k, 'v) state \<Rightarrow> lock \<Rightarrow> ('k \<times> tref) option" where
  "get_desired_key_tranc st l =
     (case first_current_transaction l of
        None \<Rightarrow> None
      | Some t \<Rightarrow>
          (case desired_lock (handlers st t) of
             None \<Rightarrow> None
           | Some (k, _, _) \<Rightarrow> Some (k, t)))"

text \<open>
  The loop of \<^verbatim>\<open>detect_deadlocks\<close> over \<^verbatim>\<open>self._lock_table.items()\<close>; every exception
  of the body (also the \<^verbatim>\<open>KeyError\<close> of \<^verbatim>\<open>self._lock_table[desired_key]\<close>) is caught
  and the loop goes on. Leaving the loop returns \<^verbatim>\<open>None\<close>.
\<close>

fun detect_loop :: "('k, 'v) state \<Rightarrow> 'k lock_table \<Rightarrow> int option" where
  "detect_loop st [] = None"
| "detect_loop st ((key, l) # rest) =
     (case get_desired_key_tranc st l of
        None \<Rightarrow> detect_loop st rest
      | Some (desired_key, t) \<Rightarrow>
          (case dict_get (lock_table st) desired_key of
             None \<Rightarrow> detect_loop st rest
           | Some other_lock \<Rightarrow>
               (case get_desired_key_tranc st other_lock of
                  None \<Rightarrow> detect_loop st rest
                | Some (other_desired_key, other_t) \<Rightarrow>
                    if other_desired_key = key
                    then Some (min (xid (handlers st t)) (xid (handlers st other_t)))
                    else detect_loop st rest)))"

definition detect_deadlocks :: "('k, 'v) state \<Rightarrow> int option" where
  "detect_deadlocks st = detect_loop st (lock_table st)"

text \<open>
  The waits-for relation in the words of the specification: \<open>a\<close> waits for \<open>b\<close> when
  \<open>a\<close> is blocked on a key, that is, has a desired lock on it that cannot be granted as
  the lock stands, and \<open>b\<close> is a current holder of that lock.
\<close>

definition spec_waits_for :: "('k, 'v) state \<Rightarrow> tref \<Rightarrow> tref \<Rightarrow> bool" where
  "spec_waits_for st a b =
     (case desired_lock (handlers st a) of
        None \<Rightarrow> False
      | Some (k, m, _) \<Rightarrow>
          (case dict_get (lock_table st) k of
             None \<Rightarrow> False
           | Some l \<Rightarrow> b \<in> set (transactions l) \<and> \<not> can_acquire_lock l a m))"

section \<open>Runs of two transactions\<close>

text \<open>
  The handler objects 1 and 2 have the transaction ids 10 and 20. In each run the
  requests are issued in the order written; keys are strings and values are integers.
\<close>

definition two_handlers :: "(string, int) state" where
  "two_handlers =
     TransactionHandler_init (TransactionHandler_init initial_state 1 10) 2 20"

text \<open>
  1 puts b, 2 gets b and is blocked, 1 commits: the release grants the lock of b to 2,
  which has not called \<^verbatim>\<open>check_lock\<close> yet.
\<close>

definition granted_unpolled_run :: "(string, int) state" where
  "granted_unpolled_run =
     (let s1 = snd (perform_put two_handlers 1 ''b'' 1);
          s2 = snd (perform_get s1 2 ''b'')
      in case commit s2 1 of None \<Rightarrow> s2 | Some (_, s3) \<Rightarrow> s3)"

text \<open>1 puts the value 0 under a, 2 gets a and is blocked, 1 commits.\<close>

definition zero_value_run :: "(string, int) state" where
  "zero_value_run =
     (let s1 = snd (perform_put two_handlers 1 ''a'' 0);
          s2 = snd (perform_get s1 2 ''a'')
      in case commit s2 1 of None \<Rightarrow> s2 | Some (_, s3) \<Rightarrow> s3)"

text \<open>
  1 gets a and 2 gets a: both hold the lock of a in shared mode.
\<close>

definition shared_run :: "(string, int) state" where
  "shared_run = snd (perform_get (snd (perform_get two_handlers 1 ''a'')) 2 ''a'')"

text \<open>
  Then 2 puts 7 under a and is refused, and issues the same put once more, refused
  again.
\<close>

definition refused_twice_run :: "(string, int) state" where
  "refused_twice_run = snd (perform_put (snd (perform_put shared_run 2 ''a'' 7)) 2 ''a'' 7)"

text \<open>
  Then 1 commits: its release grants the lock of a to the first entry of 2, which has
  not called \<^verbatim>\<open>check_lock\<close> yet and whose second entry still waits.
\<close>

definition regranted_run :: "(string, int) state" where
  "regranted_run =
     (case commit refused_twice_run 1 of None \<Rightarrow> refused_twice_run | Some (_, s) \<Rightarrow> s)"

section \<open>Properties of the lock\<close>

lemmas lock_defs = lock_run_def Lock_init_def request_lock_def release_lock_def
  can_acquire_lock_def append_request_def grant_request_def hold_lock_def

lemma lock_inv_init: "lock_inv (Lock_init t m)"
  by (simp add: lock_inv_def Lock_init_def the_queue_def)

lemma append_request_fields:
  "transactions (append_request l t m) = transactions l"
  "mode (append_request l t m) = mode l"
  by (auto simp: append_request_def split: option.splits list.splits prod.splits bool.splits)

lemma append_request_queue_nonempty: "the_queue (append_request l t m) \<noteq> []"
  by (auto simp: append_request_def the_queue_def
      split: option.splits list.splits prod.splits bool.splits if_splits)

lemma remove1_single: "length xs = Suc 0 \<Longrightarrow> t \<in> set xs \<Longrightarrow> remove1 t xs = []"
  by (cases xs) auto

lemma lock_inv_request: "lock_inv l \<Longrightarrow> lock_inv (snd (request_lock l t m))"
  unfolding lock_inv_def request_lock_def can_acquire_lock_def
  by (cases "transactions l"; cases m)
    (auto simp: append_request_fields the_queue_def append_request_queue_nonempty
      split: if_splits)

lemma lock_inv_release: "lock_inv l \<Longrightarrow> lock_inv (release_lock l t)"
  unfolding lock_inv_def release_lock_def grant_request_def Let_def
  by (auto simp: the_queue_def remove1_single split: option.splits list.splits if_splits)

lemma lock_inv_step: "lock_inv l \<Longrightarrow> lock_inv (lock_step l x)"
  by (cases x) (simp_all add: lock_inv_request lock_inv_release)

lemma lock_inv_run: "lock_inv l \<Longrightarrow> lock_inv (lock_run l ops)"
  unfolding lock_run_def
  by (induction ops arbitrary: l) (simp_all add: lock_inv_step)

text \<open>
  Claim C1. Take a lock as \<^verbatim>\<open>Lock(t0, m0)\<close> creates it and apply any sequence of
  \<^verbatim>\<open>request_lock\<close> and \<^verbatim>\<open>release_lock\<close> calls. In the lock that results, mode
  \<^verbatim>\<open>ExclusiveLock\<close> means exactly one holder, an empty holder list means that the mode is
  \<^verbatim>\<open>None\<close>, two transactions that both hold the lock in exclusive mode are the same
  transaction, and a transaction holding it in exclusive mode is the only holder.
\<close>

theorem lock_mutual_exclusion:
  assumes "l = lock_run (Lock_init t0 m0) ops"
  shows "(mode l = Some ExclusiveLock \<longrightarrow>
            card (set (transactions l)) = 1 \<and> length (transactions l) = 1)
       \<and> (set (transactions l) = {} \<longrightarrow> mode l = None)
       \<and> (\<forall>a b. hold_lock l a ExclusiveLock \<and> hold_lock l b ExclusiveLock \<longrightarrow> a = b)
       \<and> (\<forall>a b. hold_lock l a ExclusiveLock \<and> b \<in> set (transactions l) \<longrightarrow> b = a)"
proof -
  have inv: "lock_inv l"
    unfolding assms by (rule lock_inv_run [OF lock_inv_init])
  have one: "length (transactions l) = 1" if "mode l = Some ExclusiveLock"
    using inv that by (simp add: lock_inv_def)
  have sole: "b = a" if "hold_lock l a ExclusiveLock" "b \<in> set (transactions l)" for a b
  proof -
    from that(1) have "length (transactions l) = 1" and "a \<in> set (transactions l)"
      by (simp_all add: hold_lock_def one)
    then obtain x where "transactions l = [x]"
      by (cases "transactions l") auto
    with \<open>a \<in> set (transactions l)\<close> that(2) show ?thesis by simp
  qed
  have c1: "mode l = Some ExclusiveLock \<longrightarrow>
      card (set (transactions l)) = 1 \<and> length (transactions l) = 1"
    using inv by (auto simp: lock_inv_def distinct_card)
  have c2: "set (transactions l) = {} \<longrightarrow> mode l = None"
    using inv by (simp add: lock_inv_def)
  have c3: "\<forall>a b. hold_lock l a ExclusiveLock \<and> hold_lock l b ExclusiveLock \<longrightarrow> a = b"
    using sole by (auto simp: hold_lock_def)
  have c4: "\<forall>a b. hold_lock l a ExclusiveLock \<and> b \<in> set (transactions l) \<longrightarrow> b = a"
    using sole by blast
  from c1 c2 c3 c4 show ?thesis by blast
qed

text \<open>
  Two runs: after \<^verbatim>\<open>Lock(1, Exclusive)\<close>, a refused exclusive request of 2 and the release
  by 1, transaction 2 is the one exclusive holder; after the release by 1 alone the lock
  has no holder and no mode.
\<close>

theorem lock_mutual_exclusion_witness:
  "mode (lock_run (Lock_init 1 ExclusiveLock) [Request 2 ExclusiveLock, Release 1])
     = Some ExclusiveLock
   \<and> transactions (lock_run (Lock_init 1 ExclusiveLock) [Request 2 ExclusiveLock, Release 1])
     = [2]
   \<and> hold_lock (lock_run (Lock_init 1 ExclusiveLock) [Request 2 ExclusiveLock, Release 1])
       2 ExclusiveLock
   \<and> set (transactions (lock_run (Lock_init 1 ExclusiveLock) [Release 1])) = {}
   \<and> mode (lock_run (Lock_init 1 ExclusiveLock) [Release 1]) = None"
  using lock_mutual_exclusion [OF refl, of 1 ExclusiveLock "[Request 2 ExclusiveLock, Release 1]"]
    lock_mutual_exclusion [OF refl, of 1 ExclusiveLock "[Release 1]"]
  by (simp add: lock_defs)

lemma has_request_and_update_False:
  "\<not> fst (has_request_and_update t m q) \<Longrightarrow> snd (has_request_and_update t m q) = q"
  by (induction q) (auto split: prod.splits if_splits)

lemma has_request_and_update_True:
  "fst (has_request_and_update t m q) \<Longrightarrow>
   \<exists>i < length q. q ! i = (t, SharedLock) \<and>
     (\<forall>j < i. \<not> (fst (q ! j) = t \<and> snd (q ! j) = SharedLock)) \<and>
     snd (has_request_and_update t m q) = q[i := (t, m)]"
proof (induction q)
  case Nil
  then show ?case by simp
next
  case (Cons r rs)
  show ?case
  proof (cases "fst r = t \<and> snd r = SharedLock")
    case True
    then have "(r # rs) ! 0 = (t, SharedLock) \<and>
        snd (has_request_and_update t m (r # rs)) = (r # rs)[0 := (t, m)]"
      by (cases r) simp
    then show ?thesis by (intro exI [of _ 0]) simp
  next
    case False
    with Cons.prems have "fst (has_request_and_update t m rs)"
      by (auto split: prod.splits)
    from Cons.IH [OF this] obtain i where i: "i < length rs" "rs ! i = (t, SharedLock)"
      "\<forall>j < i. \<not> (fst (rs ! j) = t \<and> snd (rs ! j) = SharedLock)"
      "snd (has_request_and_update t m rs) = rs[i := (t, m)]"
      by blast
    have "\<forall>j < Suc i. \<not> (fst ((r # rs) ! j) = t \<and> snd ((r # rs) ! j) = SharedLock)"
      using False i(3) by (auto simp: less_Suc_eq_0_disj)
    moreover have "snd (has_request_and_update t m (r # rs)) = (r # rs)[Suc i := (t, m)]"
      using False i(4) by (auto split: prod.splits)
    ultimately show ?thesis
      using i(1,2) by (intro exI [of _ "Suc i"]) simp
  qed
qed

lemma append_request_nonempty_queue:
  assumes "request_queue l = Some q" and "q \<noteq> []"
  shows "append_request l t m =
     (if fst (has_request_and_update t m q)
      then l\<lparr>request_queue := Some (snd (has_request_and_update t m q))\<rparr>
      else l\<lparr>request_queue := Some (snd (has_request_and_update t m q) @ [(t, m)])\<rparr>)"
  using assms
  by (cases q; cases "has_request_and_update t m q")
    (auto simp: append_request_def simp del: has_request_and_update.simps)

lemma append_request_queue:
  "the_queue (append_request l t m) = the_queue l @ [(t, m)] \<or>
   (\<exists>i < length (the_queue l). the_queue l ! i = (t, SharedLock) \<and>
      the_queue (append_request l t m) = (the_queue l)[i := (t, m)])"
proof (cases "request_queue l")
  case None
  then show ?thesis by (simp add: append_request_def the_queue_def)
next
  case (Some q)
  show ?thesis
  proof (cases q)
    case Nil
    with Some show ?thesis by (simp add: append_request_def the_queue_def)
  next
    case (Cons r rs)
    show ?thesis
    proof (cases "fst (has_request_and_update t m q)")
      case True
      from has_request_and_update_True [OF this] obtain i where
        "i < length q" "q ! i = (t, SharedLock)"
        "snd (has_request_and_update t m q) = q[i := (t, m)]" by blast
      moreover have "the_queue (append_request l t m) = snd (has_request_and_update t m q)"
        using True Some Cons
        by (simp add: append_request_nonempty_queue [of l q] the_queue_def
            del: has_request_and_update.simps)
      ultimately show ?thesis using Some by (auto simp: the_queue_def)
    next
      case False
      then have "snd (has_request_and_update t m q) = q"
        by (simp add: has_request_and_update_False)
      with False Some Cons have "the_queue (append_request l t m) = q @ [(t, m)]"
        by (simp add: append_request_nonempty_queue [of l q] the_queue_def
            del: has_request_and_update.simps)
      then show ?thesis using Some by (simp add: the_queue_def)
    qed
  qed
qed

lemma can_acquire_lock_table:
  assumes "lock_inv l"
  shows "can_acquire_lock l t m =
     (transactions l = []
      \<or> (mode l = Some ExclusiveLock \<and> transactions l = [t])
      \<or> (m = SharedLock \<and> mode l = Some SharedLock)
      \<or> (transactions l = [t] \<and> m = ExclusiveLock))"
proof (cases "transactions l")
  case Nil
  then show ?thesis by (simp add: can_acquire_lock_def)
next
  case (Cons x xs)
  with assms obtain y where y: "mode l = Some y"
    by (auto simp: lock_inv_def)
  show ?thesis
    using assms Cons y
    by (cases y; cases m; cases xs) (auto simp: can_acquire_lock_def lock_inv_def)
qed

text \<open>
  Claim C3. For a lock reached from its creation by requests and releases,
  \<^verbatim>\<open>request_lock\<close> answers \<^verbatim>\<open>True\<close> exactly in the four cases of the table: no holder;
  exclusive mode with the requester as the one holder; a shared request on a lock in
  shared mode; the requester as the one holder asking for exclusive mode. When it grants,
  the requester is appended to the holders unless it is one already and the mode becomes
  the requested one. When it refuses, the requester is taken out of the holders, the mode
  stays, and the queue either gets a new last entry or has an entry of the requester
  replaced in place; the answer is \<^verbatim>\<open>False\<close>.
\<close>

theorem request_lock_grant_table:
  assumes "l = lock_run (Lock_init t0 m0) ops"
    and "request_lock l t m = (granted, l')"
  shows "(granted \<longleftrightarrow>
            transactions l = []
            \<or> (mode l = Some ExclusiveLock \<and> transactions l = [t])
            \<or> (m = SharedLock \<and> mode l = Some SharedLock)
            \<or> (transactions l = [t] \<and> m = ExclusiveLock))
       \<and> (granted \<longrightarrow>
            transactions l' = (if t \<in> set (transactions l) then transactions l
                               else transactions l @ [t])
            \<and> mode l' = Some m \<and> request_queue l' = request_queue l)
       \<and> (\<not> granted \<longrightarrow>
            transactions l' = remove1 t (transactions l) \<and> t \<notin> set (transactions l')
            \<and> mode l' = mode l
            \<and> (the_queue l' = the_queue l @ [(t, m)]
               \<or> (\<exists>i < length (the_queue l). the_queue l ! i = (t, SharedLock) \<and>
                     the_queue l' = (the_queue l)[i := (t, m)])))"
proof -
  have inv: "lock_inv l"
    unfolding assms(1) by (rule lock_inv_run [OF lock_inv_init])
  have g: "granted = can_acquire_lock l t m"
    using assms(2) by (auto simp: request_lock_def split: if_splits)
  have c1: "granted \<longleftrightarrow>
            transactions l = []
            \<or> (mode l = Some ExclusiveLock \<and> transactions l = [t])
            \<or> (m = SharedLock \<and> mode l = Some SharedLock)
            \<or> (transactions l = [t] \<and> m = ExclusiveLock)"
    unfolding g by (rule can_acquire_lock_table [OF inv])
  have c2: "transactions l' = (if t \<in> set (transactions l) then transactions l
                               else transactions l @ [t])
            \<and> mode l' = Some m \<and> request_queue l' = request_queue l" if granted
    using assms(2) that g by (auto simp: request_lock_def split: if_splits)
  have c3: "transactions l' = remove1 t (transactions l) \<and> t \<notin> set (transactions l')
            \<and> mode l' = mode l
            \<and> (the_queue l' = the_queue l @ [(t, m)]
               \<or> (\<exists>i < length (the_queue l). the_queue l ! i = (t, SharedLock) \<and>
                     the_queue l' = (the_queue l)[i := (t, m)]))" if "\<not> granted"
  proof -
    define l1 where "l1 = (if t \<in> set (transactions l)
                   then l\<lparr>transactions := remove1 t (transactions l)\<rparr> else l)"
    have l': "l' = append_request l1 t m"
      using assms(2) that g by (auto simp: request_lock_def l1_def split: if_splits)
    have tr: "transactions l1 = remove1 t (transactions l)"
      by (simp add: l1_def remove1_idem)
    have q1: "the_queue l1 = the_queue l" and m1: "mode l1 = mode l"
      by (simp_all add: l1_def the_queue_def)
    have "distinct (transactions l)" using inv by (simp add: lock_inv_def)
    then have "t \<notin> set (remove1 t (transactions l))" by simp
    then show ?thesis
      using append_request_queue [of l1 t m]
      by (simp add: l' append_request_fields tr q1 m1)
  qed
  from c1 c2 c3 show ?thesis by blast
qed

text \<open>
  With holders 1 and 2 in shared mode the exclusive request of 1 is refused, 1 leaves the
  holders and is queued; as the only holder, 1 is upgraded in place.
\<close>

theorem request_lock_grant_table_witness:
  "\<not> fst (request_lock (lock_run (Lock_init 1 SharedLock) [Request 2 SharedLock]) 1 ExclusiveLock)
   \<and> transactions (snd (request_lock (lock_run (Lock_init 1 SharedLock) [Request 2 SharedLock])
         1 ExclusiveLock)) = [2]
   \<and> the_queue (snd (request_lock (lock_run (Lock_init 1 SharedLock) [Request 2 SharedLock])
         1 ExclusiveLock)) = [(1, ExclusiveLock)]
   \<and> fst (request_lock (lock_run (Lock_init 1 SharedLock) []) 1 ExclusiveLock)
   \<and> mode (snd (request_lock (lock_run (Lock_init 1 SharedLock) []) 1 ExclusiveLock))
       = Some ExclusiveLock"
  using request_lock_grant_table [OF refl prod.collapse [symmetric],
      of 1 SharedLock "[Request 2 SharedLock]" 1 ExclusiveLock]
    request_lock_grant_table [OF refl prod.collapse [symmetric],
      of 1 SharedLock "[]" 1 ExclusiveLock]
  by (simp add: lock_defs the_queue_def)

lemma has_request_and_update_iff:
  "fst (has_request_and_update t m q) \<longleftrightarrow> (t, SharedLock) \<in> set q"
  by (induction q) (auto split: prod.splits)

lemma map_fst_list_update:
  "i < length q \<Longrightarrow> fst (q ! i) = t \<Longrightarrow> map fst (q[i := (t, m)]) = map fst q"
  by (simp add: map_update list_update_same_conv)

lemma the_queue_append_request:
  "the_queue (append_request l t m) =
     (if (t, SharedLock) \<in> set (the_queue l)
      then snd (has_request_and_update t m (the_queue l))
      else the_queue l @ [(t, m)])"
proof (cases "the_queue l = []")
  case True
  then show ?thesis
    by (auto simp: append_request_def the_queue_def split: option.splits list.splits)
next
  case False
  then obtain q where rq: "request_queue l = Some q" and ne: "q \<noteq> []"
    and tq: "the_queue l = q"
    by (auto simp: the_queue_def split: option.splits)
  have upd: "the_queue (l\<lparr>request_queue := Some x\<rparr>) = x" for x
    by (simp add: the_queue_def)
  show ?thesis
    unfolding append_request_nonempty_queue [OF rq ne] tq
    by (simp add: upd has_request_and_update_iff has_request_and_update_False
        del: has_request_and_update.simps)
qed

lemma the_queue_request_lock:
  "the_queue (snd (request_lock l t m)) =
     (if can_acquire_lock l t m then the_queue l
      else if (t, SharedLock) \<in> set (the_queue l)
      then snd (has_request_and_update t m (the_queue l))
      else the_queue l @ [(t, m)])"
proof -
  have "the_queue (l\<lparr>transactions := xs\<rparr>) = the_queue l" for xs
    by (simp add: the_queue_def)
  then show ?thesis
    by (simp add: request_lock_def the_queue_append_request) (simp add: the_queue_def)
qed

lemma has_request_and_update_first:
  assumes "(t, SharedLock) \<in> set q"
  shows "\<exists>i < length q. q ! i = (t, SharedLock) \<and> (\<forall>j < i. q ! j \<noteq> (t, SharedLock))
           \<and> snd (has_request_and_update t m q) = q[i := (t, m)]"
proof -
  from assms have "fst (has_request_and_update t m q)"
    by (simp add: has_request_and_update_iff)
  from has_request_and_update_True [OF this] obtain i where i: "i < length q"
      "q ! i = (t, SharedLock)"
      "\<forall>j < i. \<not> (fst (q ! j) = t \<and> snd (q ! j) = SharedLock)"
      "snd (has_request_and_update t m q) = q[i := (t, m)]"
    by blast
  from i(3) have "\<forall>j < i. q ! j \<noteq> (t, SharedLock)" by auto
  with i(1,2,4) show ?thesis by blast
qed

lemma has_request_and_update_keys:
  "map fst (snd (has_request_and_update t m q)) = map fst q"
  by (induction q) (auto split: prod.splits)

text \<open>
  Claim C7, as stated, fails: transaction 2 is refused the exclusive lock twice and then
  has two entries in the queue, because the loop of \<^verbatim>\<open>_append_request\<close> passes over
  an entry in exclusive mode and the request is appended.
\<close>

theorem append_request_duplicate_counterexample:
  "the_queue (lock_run (Lock_init 1 ExclusiveLock)
      [Request 2 ExclusiveLock, Request 2 ExclusiveLock])
     = [(2, ExclusiveLock), (2, ExclusiveLock)]
   \<and> \<not> distinct (map fst (the_queue (lock_run (Lock_init 1 ExclusiveLock)
      [Request 2 ExclusiveLock, Request 2 ExclusiveLock])))"
  by (simp add: lock_defs the_queue_def)

text \<open>
  Claim C7, amended. For a refused request: if the requester has an entry in shared mode
  in the queue, the first such entry gets the requested mode in place and nothing is
  appended (the queue keeps its length and its order of transactions); if the requester
  has no entry, one entry is appended at the end. So a queue with at most one entry for
  each transaction stays so, provided the requester has no entry in exclusive mode.
\<close>

theorem request_lock_upgrade_in_queue:
  assumes "request_lock l t m = (False, l')"
  shows "((t, SharedLock) \<in> set (the_queue l) \<longrightarrow>
            (\<exists>i < length (the_queue l). the_queue l ! i = (t, SharedLock)
               \<and> (\<forall>j < i. the_queue l ! j \<noteq> (t, SharedLock))
               \<and> the_queue l' = (the_queue l)[i := (t, m)])
            \<and> length (the_queue l') = length (the_queue l)
            \<and> map fst (the_queue l') = map fst (the_queue l))
       \<and> (t \<notin> fst ` set (the_queue l) \<longrightarrow> the_queue l' = the_queue l @ [(t, m)])
       \<and> (distinct (map fst (the_queue l)) \<and> (t, ExclusiveLock) \<notin> set (the_queue l) \<longrightarrow>
            distinct (map fst (the_queue l')))"
proof -
  define q where "q = the_queue l"
  have ref: "\<not> can_acquire_lock l t m" and l': "l' = snd (request_lock l t m)"
    using assms by (auto simp: request_lock_def split: if_splits)
  have eq: "the_queue l' =
     (if (t, SharedLock) \<in> set q then snd (has_request_and_update t m q) else q @ [(t, m)])"
    unfolding l' q_def using ref by (simp add: the_queue_request_lock)
  have c1: "(\<exists>i < length q. q ! i = (t, SharedLock)
               \<and> (\<forall>j < i. q ! j \<noteq> (t, SharedLock))
               \<and> the_queue l' = q[i := (t, m)])
            \<and> length (the_queue l') = length q
            \<and> map fst (the_queue l') = map fst q" if "(t, SharedLock) \<in> set q"
  proof -
    from has_request_and_update_first [OF that, of m] obtain i where
      i: "i < length q" "q ! i = (t, SharedLock)" "\<forall>j < i. q ! j \<noteq> (t, SharedLock)"
      "snd (has_request_and_update t m q) = q[i := (t, m)]"
      by blast
    have "the_queue l' = q[i := (t, m)]"
      using eq that i(4) by simp
    moreover have "map fst (the_queue l') = map fst q"
      using eq that by (simp add: has_request_and_update_keys)
    ultimately show ?thesis
      using i(1,2,3) by auto
  qed
  have c2: "the_queue l' = q @ [(t, m)]" if "t \<notin> fst ` set q"
  proof -
    from that have "(t, SharedLock) \<notin> set q" by force
    then show ?thesis by (simp add: eq)
  qed
  have c3: "distinct (map fst (the_queue l'))"
    if "distinct (map fst q)" "(t, ExclusiveLock) \<notin> set q"
  proof (cases "(t, SharedLock) \<in> set q")
    case True
    with c1 that(1) show ?thesis by simp
  next
    case False
    have "t \<notin> fst ` set q"
    proof
      assume "t \<in> fst ` set q"
      then obtain x where "(t, x) \<in> set q" by force
      with False that(2) show False by (cases x) auto
    qed
    with c2 that(1) show ?thesis by simp
  qed
  from c1 c2 c3 show ?thesis unfolding q_def by blast
qed

text \<open>
  Behind holder 1, transactions 2 and 3 wait in shared mode: the exclusive request of 2
  rewrites its entry; with only 2 waiting, the request of 3 is appended.
\<close>

theorem request_lock_upgrade_in_queue_witness:
  "the_queue (snd (request_lock
      (lock_run (Lock_init 1 ExclusiveLock) [Request 2 SharedLock, Request 3 SharedLock])
      2 ExclusiveLock)) = [(2, ExclusiveLock), (3, SharedLock)]
   \<and> the_queue (snd (request_lock
      (lock_run (Lock_init 1 ExclusiveLock) [Request 2 SharedLock])
      3 ExclusiveLock)) = [(2, SharedLock), (3, ExclusiveLock)]"
  using request_lock_upgrade_in_queue [of
      "lock_run (Lock_init 1 ExclusiveLock) [Request 2 SharedLock, Request 3 SharedLock]"
      2 ExclusiveLock
      "snd (request_lock
         (lock_run (Lock_init 1 ExclusiveLock) [Request 2 SharedLock, Request 3 SharedLock])
         2 ExclusiveLock)"]
    request_lock_upgrade_in_queue [of
      "lock_run (Lock_init 1 ExclusiveLock) [Request 2 SharedLock]"
      3 ExclusiveLock
      "snd (request_lock (lock_run (Lock_init 1 ExclusiveLock) [Request 2 SharedLock])
         3 ExclusiveLock)"]
  by (simp add: lock_defs the_queue_def)


lemma release_lock_cases:
  "remove1 t (transactions l) \<noteq> [] \<Longrightarrow>
     release_lock l t = l\<lparr>transactions := remove1 t (transactions l)\<rparr>"
  "remove1 t (transactions l) = [] \<Longrightarrow> the_queue l = [] \<Longrightarrow>
     transactions (release_lock l t) = [] \<and> mode (release_lock l t) = None
     \<and> the_queue (release_lock l t) = []"
  "remove1 t (transactions l) = [] \<Longrightarrow> the_queue l = r # rs \<Longrightarrow>
     transactions (release_lock l t) = [fst r] \<and> mode (release_lock l t) = Some (snd r)
     \<and> the_queue (release_lock l t) = rs"
  by (auto simp: release_lock_def grant_request_def the_queue_def remove1_idem Let_def
      split: option.splits list.splits)

lemma release_step_queue:
  "the_queue (release_lock l t) = the_queue l \<or>
   the_queue l = hd (the_queue l) # the_queue (release_lock l t)"
  by (auto simp: release_lock_def grant_request_def the_queue_def Let_def
      split: option.splits list.splits)

lemma request_step_queue:
  "map fst (the_queue (snd (request_lock l t m))) = map fst (the_queue l)
   \<or> the_queue (snd (request_lock l t m)) = the_queue l @ [(t, m)]"
  by (simp add: the_queue_request_lock has_request_and_update_keys)

lemma length_has_request_and_update:
  "length (snd (has_request_and_update t m q)) = length q"
  using has_request_and_update_keys [of t m q] by (metis length_map)

lemma step_fifo:
  "map fst (the_queue (lock_step l x)) =
     drop (queue_pops l [x]) (map fst (the_queue l) @ queue_arrivals l [x])
   \<and> queue_pops l [x] \<le> length (the_queue l)"
proof (cases x)
  case (Request t m)
  show ?thesis
    unfolding Request
    by (simp add: the_queue_request_lock has_request_and_update_keys
        length_has_request_and_update)
next
  case (Release t)
  from release_step_queue [of l t] show ?thesis
    unfolding Release
  proof
    assume "the_queue (release_lock l t) = the_queue l"
    then show "map fst (the_queue (lock_step l (Release t))) =
     drop (queue_pops l [Release t]) (map fst (the_queue l) @ queue_arrivals l [Release t])
     \<and> queue_pops l [Release t] \<le> length (the_queue l)" by simp
  next
    assume a: "the_queue l = hd (the_queue l) # the_queue (release_lock l t)"
    then have "length (the_queue l) = Suc (length (the_queue (release_lock l t)))"
      by (metis length_Cons)
    moreover from a have "map fst (the_queue l)
        = fst (hd (the_queue l)) # map fst (the_queue (release_lock l t))"
      by (metis list.simps(9))
    ultimately show "map fst (the_queue (lock_step l (Release t))) =
     drop (queue_pops l [Release t]) (map fst (the_queue l) @ queue_arrivals l [Release t])
     \<and> queue_pops l [Release t] \<le> length (the_queue l)" by simp
  qed
qed

lemma queue_pops_Cons: "queue_pops l (x # xs) = queue_pops l [x] + queue_pops (lock_step l x) xs"
  by simp

lemma queue_arrivals_Cons:
  "queue_arrivals l (x # xs) = queue_arrivals l [x] @ queue_arrivals (lock_step l x) xs"
  by (cases x) simp_all

lemma run_fifo:
  "map fst (the_queue (lock_run l ops)) =
     drop (queue_pops l ops) (map fst (the_queue l) @ queue_arrivals l ops)"
proof (induction ops arbitrary: l)
  case Nil
  then show ?case by (simp add: lock_run_def)
next
  case (Cons x xs)
  let ?l1 = "lock_step l x"
  have run: "lock_run l (x # xs) = lock_run ?l1 xs"
    by (simp add: lock_run_def)
  from step_fifo [of l x] have s: "map fst (the_queue ?l1) =
     drop (queue_pops l [x]) (map fst (the_queue l) @ queue_arrivals l [x])"
    and le: "queue_pops l [x] \<le> length (the_queue l)" by simp_all
  have "map fst (the_queue (lock_run ?l1 xs)) =
     drop (queue_pops ?l1 xs) (map fst (the_queue ?l1) @ queue_arrivals ?l1 xs)"
    by (rule Cons.IH)
  also have "map fst (the_queue ?l1) @ queue_arrivals ?l1 xs =
     drop (queue_pops l [x])
       ((map fst (the_queue l) @ queue_arrivals l [x]) @ queue_arrivals ?l1 xs)"
    using le by (simp add: s)
  finally show ?case
    unfolding run
    by (simp only: queue_pops_Cons [of l x xs] queue_arrivals_Cons [of l x xs]
        drop_drop append_assoc add.commute)
qed

text \<open>
  Claim C6. \<^verbatim>\<open>release_lock\<close> takes the transaction out of the holders. If a holder is
  left, nothing else changes. If none is left, the mode is cleared and, when the queue is
  not empty, its head alone is granted: it becomes the one holder with its requested mode
  and all the entries behind it stay queued, whatever their modes. Over any run of
  requests and releases, entries leave the queue at the front and arrive at the back only:
  the waiting transactions are those of the first queue followed by the arrivals, less as
  many at the front as have been granted. So a request queued earlier is granted no later
  than one queued after it.
\<close>

theorem release_lock_grants_head:
  "(remove1 t (transactions l) \<noteq> [] \<longrightarrow>
      release_lock l t = l\<lparr>transactions := remove1 t (transactions l)\<rparr>)
   \<and> (remove1 t (transactions l) = [] \<and> the_queue l = [] \<longrightarrow>
      transactions (release_lock l t) = [] \<and> mode (release_lock l t) = None
      \<and> the_queue (release_lock l t) = [])
   \<and> (\<forall>r rs. remove1 t (transactions l) = [] \<and> the_queue l = r # rs \<longrightarrow>
      transactions (release_lock l t) = [fst r] \<and> mode (release_lock l t) = Some (snd r)
      \<and> the_queue (release_lock l t) = rs)
   \<and> map fst (the_queue (lock_run l ops)) =
      drop (queue_pops l ops) (map fst (the_queue l) @ queue_arrivals l ops)"
  using release_lock_cases [of t l] run_fifo [of l ops] by blast

text \<open>
  Transactions 2 and 3 wait in shared mode for the exclusive holder 1: its release grants
  2 alone and 3 keeps waiting. A release that leaves holder 2 changes nothing else, and
  the release of a lock nobody waits for clears the mode.
\<close>

theorem release_lock_grants_head_witness:
  "transactions (release_lock
      (lock_run (Lock_init 1 ExclusiveLock) [Request 2 SharedLock, Request 3 SharedLock]) 1) = [2]
   \<and> mode (release_lock
      (lock_run (Lock_init 1 ExclusiveLock) [Request 2 SharedLock, Request 3 SharedLock]) 1)
      = Some SharedLock
   \<and> the_queue (release_lock
      (lock_run (Lock_init 1 ExclusiveLock) [Request 2 SharedLock, Request 3 SharedLock]) 1)
      = [(3, SharedLock)]
   \<and> release_lock (lock_run (Lock_init 1 SharedLock) [Request 2 SharedLock]) 1
      = \<lparr>transactions = [2], mode = Some SharedLock, request_queue = None\<rparr>
   \<and> transactions (release_lock (Lock_init 1 SharedLock) 1) = []
   \<and> mode (release_lock (Lock_init 1 SharedLock) 1) = None
   \<and> queue_pops (Lock_init 1 ExclusiveLock)
        [Request 2 SharedLock, Request 3 SharedLock, Release 1] = 1
   \<and> queue_arrivals (Lock_init 1 ExclusiveLock)
        [Request 2 SharedLock, Request 3 SharedLock, Release 1] = [2, 3]"
  using release_lock_grants_head [of 1
      "lock_run (Lock_init 1 ExclusiveLock) [Request 2 SharedLock, Request 3 SharedLock]"
      "[]"]
    release_lock_grants_head [of 1
      "lock_run (Lock_init 1 SharedLock) [Request 2 SharedLock]" "[]"]
    release_lock_grants_head [of 1 "Lock_init 1 SharedLock" "[]"]
    release_lock_grants_head [of 1 "Lock_init 1 ExclusiveLock"
      "[Request 2 SharedLock, Request 3 SharedLock, Release 1]"]
  by (simp add: lock_defs the_queue_def)

lemma dict_get_set: "dict_get (dict_set k v d) k' = (if k' = k then Some v else dict_get d k')"
  by (induction d) (auto simp: dict_get_def)

lemma dict_set_keys:
  "map fst (dict_set k v d) = (if k \<in> fst ` set d then map fst d else map fst d @ [k])"
  by (induction d) auto

lemma dict_set_absent: "dict_get d k = None \<Longrightarrow> dict_set k v d = d @ [(k, v)]"
  by (induction d) (auto simp: dict_get_def split: if_splits)

lemma dict_set_twice: "dict_set k v (dict_set k w d) = dict_set k v d"
  by (induction d) auto

lemma dict_get_None_iff: "dict_get d k = None \<longleftrightarrow> k \<notin> fst ` set d"
  by (simp add: dict_get_def map_of_eq_None_iff)

lemma request_lock_granted_hold:
  "fst (request_lock l t m) \<Longrightarrow> hold_lock (snd (request_lock l t m)) t m"
  by (auto simp: request_lock_def hold_lock_def split: if_splits)

lemma request_lock_init: "request_lock (Lock_init t m) t m = (True, Lock_init t m)"
  by (cases m) (simp_all add: request_lock_def can_acquire_lock_def Lock_init_def)

text \<open>
  Claim C8. \<^verbatim>\<open>perform_put\<close> makes an entry in the lock table for a key that has
  none (the new lock goes to the end of the table and the request on it is granted),
  then requests the lock of the key in exclusive mode. The entry of the key holds the
  lock as the request leaves it; no other entry and no other handler changes. On a grant
  the answer is \<^verbatim>\<open>'Success'\<close>, the undo log gets the key with the value the store had
  for it (\<^verbatim>\<open>None\<close> when it had none), the key is appended to the acquired locks and
  the store has the new value. On a refusal the answer is \<^verbatim>\<open>None\<close>, the desired lock
  is the key, the exclusive mode and the retry of this very put, and the store, the undo
  log and the acquired locks are as before.
\<close>

theorem perform_put_effect:
  assumes "perform_put st self key val = (r, st')"
    and "l0 = (case dict_get (lock_table st) key of
                 None \<Rightarrow> Lock_init self ExclusiveLock | Some l \<Rightarrow> l)"
  shows "(dict_get (lock_table st) key = None \<longrightarrow>
            lock_table st' = lock_table st @ [(key, Lock_init self ExclusiveLock)]
            \<and> r = Some (Msg ''Success''))
       \<and> dict_get (lock_table st') key = Some (snd (request_lock l0 self ExclusiveLock))
       \<and> (\<forall>k. k \<noteq> key \<longrightarrow> dict_get (lock_table st') k = dict_get (lock_table st) k)
       \<and> (\<forall>t. t \<noteq> self \<longrightarrow> handlers st' t = handlers st t)
       \<and> (fst (request_lock l0 self ExclusiveLock) \<longrightarrow>
            r = Some (Msg ''Success'')
            \<and> undo_log (handlers st' self)
                = undo_log (handlers st self) @ [(key, store_get (store st) key)]
            \<and> acquired_locks (handlers st' self) = acquired_locks (handlers st self) @ [key]
            \<and> store st' = store_put (store st) key (Some val)
            \<and> store_get (store st') key = Some val
            \<and> desired_lock (handlers st' self) = desired_lock (handlers st self))
       \<and> (\<not> fst (request_lock l0 self ExclusiveLock) \<longrightarrow>
            r = None
            \<and> desired_lock (handlers st' self) = Some (key, ExclusiveLock, Retry_put key val)
            \<and> (\<forall>s. run_retry s self (Retry_put key val) = perform_put s self key val)
            \<and> store st' = store st
            \<and> undo_log (handlers st' self) = undo_log (handlers st self)
            \<and> acquired_locks (handlers st' self) = acquired_locks (handlers st self))"
proof -
  define lt1 where "lt1 = (case dict_get (lock_table st) key of
                   None \<Rightarrow> dict_set key (Lock_init self ExclusiveLock) (lock_table st)
                 | Some _ \<Rightarrow> lock_table st)"
  define g where "g = fst (request_lock l0 self ExclusiveLock)"
  define l' where "l' = snd (request_lock l0 self ExclusiveLock)"
  have rl: "request_lock l0 self ExclusiveLock = (g, l')"
    by (simp add: g_def l'_def)
  have unf: "(r, st') =
     (if g then
        (Some (Msg ''Success''),
         st\<lparr>lock_table := dict_set key l' lt1,
            store := store_put (store st) key (Some val),
            handlers := (handlers st)(self := (handlers st self)
               \<lparr>undo_log := undo_log (handlers st self) @ [(key, store_get (store st) key)],
                acquired_locks := acquired_locks (handlers st self) @ [key]\<rparr>)\<rparr>)
      else
        (None,
         st\<lparr>lock_table := dict_set key l' lt1,
            handlers := (handlers st)(self := (handlers st self)
               \<lparr>desired_lock := Some (key, ExclusiveLock, Retry_put key val)\<rparr>)\<rparr>))"
    using assms(1) rl
    by (auto simp add: perform_put_def Let_def lt1_def assms(2) [symmetric] split: if_splits)
  have lt: "lock_table st' = dict_set key l' lt1"
    using unf by (auto split: if_splits)
  have c1: "lock_table st' = lock_table st @ [(key, Lock_init self ExclusiveLock)]
            \<and> r = Some (Msg ''Success'')" if "dict_get (lock_table st) key = None"
  proof -
    from that have "l0 = Lock_init self ExclusiveLock" by (simp add: assms(2))
    then have "g" and "l' = Lock_init self ExclusiveLock"
      by (simp_all add: g_def l'_def request_lock_init)
    with that unf show ?thesis
      by (simp add: lt lt1_def dict_set_twice) (simp add: dict_set_absent)
  qed
  have c2: "dict_get (lock_table st') key = Some l'"
    by (simp add: lt dict_get_set)
  have c3: "dict_get (lock_table st') k = dict_get (lock_table st) k" if "k \<noteq> key" for k
    using that by (simp add: lt lt1_def dict_get_set split: option.splits)
  have c4: "handlers st' t = handlers st t" if "t \<noteq> self" for t
    using unf that by (auto split: if_splits)
  have c5: "r = Some (Msg ''Success'')
            \<and> undo_log (handlers st' self)
                = undo_log (handlers st self) @ [(key, store_get (store st) key)]
            \<and> acquired_locks (handlers st' self) = acquired_locks (handlers st self) @ [key]
            \<and> store st' = store_put (store st) key (Some val)
            \<and> store_get (store st') key = Some val
            \<and> desired_lock (handlers st' self) = desired_lock (handlers st self)" if g
    using unf that by (simp add: store_get_def store_put_def)
  have c6: "r = None
            \<and> desired_lock (handlers st' self) = Some (key, ExclusiveLock, Retry_put key val)
            \<and> (\<forall>s. run_retry s self (Retry_put key val) = perform_put s self key val)
            \<and> store st' = store st
            \<and> undo_log (handlers st' self) = undo_log (handlers st self)
            \<and> acquired_locks (handlers st' self) = acquired_locks (handlers st self)"
    if "\<not> g"
    using unf that by simp
  from c1 c2 c3 c4 c5 c6 show ?thesis
    unfolding g_def l'_def by blast
qed

lemmas handler_defs = perform_put_def perform_get_def dict_get_def Lock_init_def
  request_lock_def can_acquire_lock_def append_request_def store_get_def store_put_def
  initial_state_def Let_def

text \<open>
  In the initial state transaction 1 puts 5 under key a: the lock is created, the put
  succeeds and the undo log records that a had no value. The put of transaction 2 on the
  same key is then refused: it is blocked on a, and the store still has 5.
\<close>

theorem perform_put_effect_witness:
  "fst (perform_put (initial_state :: (string, int) state) 1 ''a'' 5) = Some (Msg ''Success'')
   \<and> lock_table (snd (perform_put (initial_state :: (string, int) state) 1 ''a'' 5))
       = [(''a'', Lock_init 1 ExclusiveLock)]
   \<and> undo_log (handlers (snd (perform_put (initial_state :: (string, int) state) 1 ''a'' 5)) 1)
       = [(''a'', None)]
   \<and> store (snd (perform_put (initial_state :: (string, int) state) 1 ''a'' 5)) ''a'' = Some 5
   \<and> fst (perform_put (snd (perform_put (initial_state :: (string, int) state) 1 ''a'' 5))
         2 ''a'' 7) = None
   \<and> desired_lock (handlers (snd (perform_put
         (snd (perform_put (initial_state :: (string, int) state) 1 ''a'' 5)) 2 ''a'' 7)) 2)
       = Some (''a'', ExclusiveLock, Retry_put ''a'' 7)
   \<and> store (snd (perform_put
         (snd (perform_put (initial_state :: (string, int) state) 1 ''a'' 5)) 2 ''a'' 7)) ''a''
       = Some 5"
  using perform_put_effect [where st = "initial_state :: (string, int) state"
      and self = 1 and key = "''a''" and val = 5, OF prod.collapse [symmetric] refl]
    perform_put_effect [where
      st = "snd (perform_put (initial_state :: (string, int) state) 1 ''a'' 5)"
      and self = 2 and key = "''a''" and val = 7, OF prod.collapse [symmetric] refl]
  by (simp add: handler_defs)

lemma undo_loop_fold:
  "undo_loop log s = ([], fold (\<lambda>e s. store_put s (fst e) (snd e)) (rev log) s)"
proof (induction log arbitrary: s rule: rev_induct)
  case Nil
  then show ?case by (simp add: undo_loop.simps)
next
  case (snoc e log)
  show ?case
    by (subst undo_loop.simps) (simp add: snoc.IH)
qed

lemma perform_put_cases:
  "perform_put st self k v =
     (let l0 = (case dict_get (lock_table st) k of
                  None \<Rightarrow> Lock_init self ExclusiveLock | Some l \<Rightarrow> l);
          lt' = dict_set k (snd (request_lock l0 self ExclusiveLock)) (lock_table st)
      in if fst (request_lock l0 self ExclusiveLock) then
           (Some (Msg ''Success''),
            st\<lparr>lock_table := lt',
               store := (store st)(k := Some v),
               handlers := (handlers st)(self := (handlers st self)
                 \<lparr>undo_log := undo_log (handlers st self) @ [(k, store st k)],
                  acquired_locks := acquired_locks (handlers st self) @ [k]\<rparr>)\<rparr>)
         else
           (None,
            st\<lparr>lock_table := lt',
               handlers := (handlers st)(self := (handlers st self)
                 \<lparr>desired_lock := Some (k, ExclusiveLock, Retry_put k v)\<rparr>)\<rparr>))"
  by (cases "dict_get (lock_table st) k")
    (simp_all add: perform_put_def Let_def case_prod_beta dict_set_twice
      store_get_def store_put_def)

lemma perform_put_Some:
  assumes "perform_put st self k v = (Some r, st')"
  shows "store st' = (store st)(k := Some v)"
    and "undo_log (handlers st' self) = undo_log (handlers st self) @ [(k, store st k)]"
    and "acquired_locks (handlers st' self) = acquired_locks (handlers st self) @ [k]"
    and "\<forall>t. t \<noteq> self \<longrightarrow> handlers st' t = handlers st t"
    and "\<exists>l0. (case dict_get (lock_table st) k of
                 None \<Rightarrow> l0 = Lock_init self ExclusiveLock | Some l \<Rightarrow> l0 = l)
           \<and> fst (request_lock l0 self ExclusiveLock)
           \<and> lock_table st' = dict_set k (snd (request_lock l0 self ExclusiveLock)) (lock_table st)"
  using assms unfolding perform_put_cases Let_def
  by (auto split: if_splits option.splits)

lemma put_all_store:
  "put_all st self kvs = Some st1 \<Longrightarrow>
   fold (\<lambda>e s. store_put s (fst e) (snd e)) (rev (undo_log (handlers st1 self))) (store st1)
     = fold (\<lambda>e s. store_put s (fst e) (snd e)) (rev (undo_log (handlers st self))) (store st)"
proof (induction kvs arbitrary: st)
  case Nil
  then show ?case by simp
next
  case (Cons kv kvs)
  obtain k v where kv: "kv = (k, v)" by (cases kv)
  from Cons.prems obtain r st' where p: "perform_put st self k v = (Some r, st')"
    and rest: "put_all st' self kvs = Some st1"
    by (auto simp: kv split: prod.splits option.splits)
  have "store_put (store st') k (store st k) = store st"
    by (simp add: perform_put_Some(1) [OF p] store_put_def)
  then show ?case
    using Cons.IH [OF rest] by (simp add: perform_put_Some(2) [OF p])
qed

lemma put_all_acquired:
  "put_all st self kvs = Some st1 \<Longrightarrow>
   acquired_locks (handlers st1 self) = acquired_locks (handlers st self) @ map fst kvs"
proof (induction kvs arbitrary: st)
  case Nil
  then show ?case by simp
next
  case (Cons kv kvs)
  obtain k v where kv: "kv = (k, v)" by (cases kv)
  from Cons.prems obtain r st' where p: "perform_put st self k v = (Some r, st')"
    and rest: "put_all st' self kvs = Some st1"
    by (auto simp: kv split: prod.splits option.splits)
  show ?case
    using Cons.IH [OF rest] by (simp add: perform_put_Some(3) [OF p] kv)
qed

lemma keys_grow:
  "A \<subseteq> B \<Longrightarrow> k \<in> B \<Longrightarrow> B \<subseteq> C \<Longrightarrow> D \<subseteq> C \<Longrightarrow> A \<union> insert k D \<subseteq> C"
  by blast

lemma not_queued_iff:
  "not_queued self lt \<longleftrightarrow>
     (\<forall>(k, l) \<in> set lt. distinct (transactions l) \<and> self \<notin> fst ` set (the_queue l))"
  by (simp add: not_queued_def list_all_iff)

lemma set_dict_set: "set (dict_set k v d) \<subseteq> insert (k, v) (set d)"
  by (induction d) auto

lemma dict_get_in_set: "dict_get d k = Some l \<Longrightarrow> (k, l) \<in> set d"
  by (simp add: dict_get_def map_of_SomeD)

lemma dict_set_present_keys: "k \<in> fst ` set d \<Longrightarrow> fst ` set (dict_set k v d) = fst ` set d"
  by (induction d) auto

lemma dict_set_key_in: "k \<in> fst ` set (dict_set k v d)"
  by (induction d) auto

lemma dict_set_keys_mono: "fst ` set d \<subseteq> fst ` set (dict_set k v d)"
  by (induction d) auto

lemma not_queued_dict_set:
  assumes "not_queued self lt" and "distinct (transactions l)"
    and "self \<notin> fst ` set (the_queue l)"
  shows "not_queued self (dict_set k l lt)"
  using assms set_dict_set [of k l lt] unfolding not_queued_iff by blast

lemma request_lock_granted_keeps:
  assumes "fst (request_lock l t m)"
  shows "the_queue (snd (request_lock l t m)) = the_queue l"
    and "distinct (transactions l) \<Longrightarrow> distinct (transactions (snd (request_lock l t m)))"
  using assms by (auto simp: request_lock_def the_queue_def split: if_splits)

lemma release_lock_not_queued:
  assumes "distinct (transactions l)" and "self \<notin> fst ` set (the_queue l)"
  shows "distinct (transactions (release_lock l self))"
    and "self \<notin> fst ` set (the_queue (release_lock l self))"
    and "self \<notin> set (transactions (release_lock l self))"
proof -
  have d: "distinct (remove1 self (transactions l))"
    and n: "self \<notin> set (remove1 self (transactions l))"
    using assms(1) by simp_all
  show "distinct (transactions (release_lock l self))"
    using d
    by (auto simp: release_lock_def grant_request_def Let_def remove1_idem
        split: option.splits list.splits)
  show "self \<notin> fst ` set (the_queue (release_lock l self))"
    using assms(2)
    by (auto simp: release_lock_def grant_request_def Let_def the_queue_def
        split: option.splits list.splits)
  show "self \<notin> set (transactions (release_lock l self))"
  proof (cases "remove1 self (transactions l) = []")
    case False
    with n show ?thesis by (simp add: release_lock_cases(1))
  next
    case True
    show ?thesis
    proof (cases "the_queue l")
      case Nil
      with True show ?thesis by (simp add: release_lock_cases(2))
    next
      case (Cons r rs)
      with assms(2) have "fst r \<noteq> self" by auto
      with True Cons show ?thesis by (simp add: release_lock_cases(3) [of self l r rs])
    qed
  qed
qed

lemma release_loop_releases:
  assumes "not_queued self lt"
    and "\<forall>k \<in> K. \<forall>l. dict_get lt k = Some l \<longrightarrow> self \<notin> set (transactions l)"
    and "set ks \<subseteq> fst ` set lt"
  shows "\<exists>lt'. release_loop self ks lt = Some lt' \<and> not_queued self lt'
           \<and> fst ` set lt' = fst ` set lt
           \<and> (\<forall>k \<in> K \<union> set ks. \<forall>l. dict_get lt' k = Some l \<longrightarrow> self \<notin> set (transactions l))"
  using assms
proof (induction ks arbitrary: lt K)
  case Nil
  then show ?case by simp
next
  case (Cons k ks)
  from Cons.prems(3) have "k \<in> fst ` set lt" by simp
  then obtain l where l: "dict_get lt k = Some l"
    by (cases "dict_get lt k") (auto simp: dict_get_None_iff)
  then have "(k, l) \<in> set lt" by (rule dict_get_in_set)
  with Cons.prems(1) have ok: "distinct (transactions l)" "self \<notin> fst ` set (the_queue l)"
    by (auto simp: not_queued_iff)
  let ?l' = "release_lock l self"
  let ?lt = "dict_set k ?l' lt"
  have a: "not_queued self ?lt"
    using Cons.prems(1) release_lock_not_queued(1,2) [OF ok] by (rule not_queued_dict_set)
  have b: "\<forall>k' \<in> insert k K. \<forall>l. dict_get ?lt k' = Some l \<longrightarrow> self \<notin> set (transactions l)"
    using Cons.prems(2) release_lock_not_queued(3) [OF ok] by (auto simp: dict_get_set)
  have keys: "fst ` set ?lt = fst ` set lt"
    using \<open>k \<in> fst ` set lt\<close> by (rule dict_set_present_keys)
  with Cons.prems(3) have c: "set ks \<subseteq> fst ` set ?lt" by simp
  from Cons.IH [OF a b c] obtain lt' where "release_loop self ks ?lt = Some lt'"
    "not_queued self lt'" "fst ` set lt' = fst ` set ?lt"
    "\<forall>k' \<in> insert k K \<union> set ks. \<forall>l. dict_get lt' k' = Some l \<longrightarrow> self \<notin> set (transactions l)"
    by blast
  then show ?case using l keys by auto
qed

lemma put_all_table:
  "put_all st self kvs = Some st1 \<Longrightarrow> not_queued self (lock_table st) \<Longrightarrow>
   not_queued self (lock_table st1)
   \<and> fst ` set (lock_table st) \<union> fst ` set kvs \<subseteq> fst ` set (lock_table st1)"
proof (induction kvs arbitrary: st)
  case Nil
  then show ?case by simp
next
  case (Cons kv kvs)
  obtain k v where kv: "kv = (k, v)" by (cases kv)
  from Cons.prems obtain r st' where p: "perform_put st self k v = (Some r, st')"
    and rest: "put_all st' self kvs = Some st1"
    by (auto simp: kv split: prod.splits option.splits)
  from perform_put_Some(5) [OF p] obtain l0 where
    l0: "case dict_get (lock_table st) k of
           None \<Rightarrow> l0 = Lock_init self ExclusiveLock | Some l \<Rightarrow> l0 = l"
    and g: "fst (request_lock l0 self ExclusiveLock)"
    and lt: "lock_table st' = dict_set k (snd (request_lock l0 self ExclusiveLock)) (lock_table st)"
    by blast
  have "distinct (transactions l0) \<and> self \<notin> fst ` set (the_queue l0)"
  proof (cases "dict_get (lock_table st) k")
    case None
    with l0 show ?thesis by (simp add: Lock_init_def the_queue_def)
  next
    case (Some l)
    with l0 have "(k, l0) \<in> set (lock_table st)" by (simp add: dict_get_in_set)
    with Cons.prems(2) show ?thesis by (auto simp: not_queued_iff)
  qed
  then have nq: "not_queued self (lock_table st')"
    unfolding lt using Cons.prems(2) g
    by (intro not_queued_dict_set) (simp_all add: request_lock_granted_keeps)
  have k1: "fst ` set (lock_table st) \<subseteq> fst ` set (lock_table st')"
    unfolding lt by (rule dict_set_keys_mono)
  have k2: "k \<in> fst ` set (lock_table st')"
    unfolding lt by (rule dict_set_key_in)
  from Cons.IH [OF rest nq] have nq1: "not_queued self (lock_table st1)"
    and k3: "fst ` set (lock_table st') \<subseteq> fst ` set (lock_table st1)"
    and k4: "fst ` set kvs \<subseteq> fst ` set (lock_table st1)"
    by simp_all
  have "fst ` set (kv # kvs) = insert k (fst ` set kvs)"
    by (simp add: kv)
  with nq1 keys_grow [OF k1 k2 k3 k4] show ?case by simp
qed

lemma release_loop_total:
  "set ks \<subseteq> fst ` set lt \<Longrightarrow> \<exists>lt'. release_loop self ks lt = Some lt'"
proof (induction ks arbitrary: lt)
  case Nil
  then show ?case by simp
next
  case (Cons k ks)
  from Cons.prems have "k \<in> fst ` set lt" by simp
  then obtain l where l: "dict_get lt k = Some l"
    by (cases "dict_get lt k") (auto simp: dict_get_None_iff)
  have "set ks \<subseteq> fst ` set (dict_set k (release_lock l self) lt)"
    using Cons.prems dict_set_keys_mono [of lt k "release_lock l self"] by auto
  from Cons.IH [OF this] l show ?case by simp
qed

lemma put_all_keys:
  "put_all st self kvs = Some st1 \<Longrightarrow>
   fst ` set (lock_table st) \<union> fst ` set kvs \<subseteq> fst ` set (lock_table st1)"
proof (induction kvs arbitrary: st)
  case Nil
  then show ?case by simp
next
  case (Cons kv kvs)
  obtain k v where kv: "kv = (k, v)" by (cases kv)
  from Cons.prems obtain r st' where p: "perform_put st self k v = (Some r, st')"
    and rest: "put_all st' self kvs = Some st1"
    by (auto simp: kv split: prod.splits option.splits)
  from perform_put_Some(5) [OF p] obtain l' where
    lt: "lock_table st' = dict_set k l' (lock_table st)"
    by blast
  have k1: "fst ` set (lock_table st) \<subseteq> fst ` set (lock_table st')"
    unfolding lt by (rule dict_set_keys_mono)
  have k2: "k \<in> fst ` set (lock_table st')"
    unfolding lt by (rule dict_set_key_in)
  from Cons.IH [OF rest]
  have k3: "fst ` set (lock_table st') \<subseteq> fst ` set (lock_table st1)"
    and k4: "fst ` set kvs \<subseteq> fst ` set (lock_table st1)"
    by simp_all
  have "fst ` set (kv # kvs) = insert k (fst ` set kvs)"
    by (simp add: kv)
  with keys_grow [OF k1 k2 k3 k4] show ?case by simp
qed

lemma abort_unfold:
  "abort st self am =
     (case release_loop self (acquired_locks (handlers st self)) (lock_table st) of
        None \<Rightarrow> None
      | Some lt' \<Rightarrow>
          Some (if am = USER then Msg ''User Abort'' else Msg ''Deadlock Abort'',
                st\<lparr>lock_table := lt',
                   store := fold (\<lambda>e s. store_put s (fst e) (snd e))
                              (rev (undo_log (handlers st self))) (store st),
                   handlers := (handlers st)(self :=
                     (handlers st self)\<lparr>undo_log := [], acquired_locks := []\<rparr>)\<rparr>))"
  by (simp add: abort_def release_and_grant_locks_def undo_loop_fold Let_def
      split: option.splits)

text \<open>
  Claim C2. A transaction with an empty undo log and no acquired lock issues puts, each
  answered \<^verbatim>\<open>'Success'\<close>, on any keys in any order, and then aborts in either mode. The
  abort returns: \<^verbatim>\<open>'User Abort'\<close> for \<^verbatim>\<open>USER\<close>, \<^verbatim>\<open>'Deadlock Abort'\<close> for
  \<^verbatim>\<open>DEADLOCK\<close>. It has put the recorded values back from the last entry of the undo log
  to the first, and the store is then the store from before the first put: every key
  written has its old value, also when that is no value at all. The undo log and the
  list of acquired locks are empty, and (for a transaction that waited in no queue when
  it started) the transaction is no longer a holder of the lock of any key it wrote.
\<close>

theorem abort_undoes_puts:
  assumes "undo_log (handlers st self) = []"
    and "acquired_locks (handlers st self) = []"
    and "put_all st self kvs = Some st1"
  shows "\<exists>msg st2. abort st1 self am = Some (msg, st2)
     \<and> (am = USER \<longrightarrow> msg = Msg ''User Abort'')
     \<and> (am = DEADLOCK \<longrightarrow> msg = Msg ''Deadlock Abort'')
     \<and> store st2 = fold (\<lambda>e s. store_put s (fst e) (snd e))
                      (rev (undo_log (handlers st1 self))) (store st1)
     \<and> store st2 = store st
     \<and> (\<forall>k \<in> fst ` set kvs. store_get (store st2) k = store_get (store st) k)
     \<and> undo_log (handlers st2 self) = []
     \<and> acquired_locks (handlers st2 self) = []
     \<and> (not_queued self (lock_table st) \<longrightarrow>
          (\<forall>k \<in> fst ` set kvs. \<exists>l. dict_get (lock_table st2) k = Some l
             \<and> self \<notin> set (transactions l)))"
proof -
  let ?undo = "fold (\<lambda>e s. store_put s (fst e) (snd e))"
  have acq: "acquired_locks (handlers st1 self) = map fst kvs"
    using put_all_acquired [OF assms(3)] assms(2) by simp
  have keys: "fst ` set kvs \<subseteq> fst ` set (lock_table st1)"
    using put_all_keys [OF assms(3)] by simp
  then have "set (map fst kvs) \<subseteq> fst ` set (lock_table st1)" by simp
  from release_loop_total [OF this] obtain lt' where
    rel: "release_loop self (map fst kvs) (lock_table st1) = Some lt'" by blast
  define st2 where "st2 = st1\<lparr>lock_table := lt',
      store := ?undo (rev (undo_log (handlers st1 self))) (store st1),
      handlers := (handlers st1)(self :=
        (handlers st1 self)\<lparr>undo_log := [], acquired_locks := []\<rparr>)\<rparr>"
  define msg :: "'b reply" where
    "msg = (if am = USER then Msg ''User Abort'' else Msg ''Deadlock Abort'')"
  have ab: "abort st1 self am = Some (msg, st2)"
    by (simp add: abort_unfold acq rel st2_def msg_def)
  have m1: "am = USER \<longrightarrow> msg = Msg ''User Abort''"
    and m2: "am = DEADLOCK \<longrightarrow> msg = Msg ''Deadlock Abort''"
    by (simp_all add: msg_def USER_def DEADLOCK_def)
  have s1: "store st2 = ?undo (rev (undo_log (handlers st1 self))) (store st1)"
    by (simp add: st2_def)
  have s2: "store st2 = store st"
    unfolding s1 using put_all_store [OF assms(3)] assms(1) by simp
  have s3: "\<forall>k \<in> fst ` set kvs. store_get (store st2) k = store_get (store st) k"
    by (simp add: s2)
  have h: "undo_log (handlers st2 self) = []" "acquired_locks (handlers st2 self) = []"
    by (simp_all add: st2_def)
  have lk: "\<forall>k \<in> fst ` set kvs. \<exists>l. dict_get (lock_table st2) k = Some l
             \<and> self \<notin> set (transactions l)" if nq: "not_queued self (lock_table st)"
  proof
    fix k assume k: "k \<in> fst ` set kvs"
    have nq1: "not_queued self (lock_table st1)"
      using put_all_table [OF assms(3) nq] by simp
    have "\<forall>k \<in> {}. \<forall>l. dict_get (lock_table st1) k = Some l \<longrightarrow> self \<notin> set (transactions l)"
      by simp
    from release_loop_releases [OF nq1 this, of "map fst kvs"] keys rel
    have ks: "fst ` set lt' = fst ` set (lock_table st1)"
      and out: "\<forall>k \<in> set (map fst kvs). \<forall>l. dict_get lt' k = Some l
                  \<longrightarrow> self \<notin> set (transactions l)"
      by auto
    from k keys ks have "k \<in> fst ` set lt'" by auto
    then obtain l where l: "dict_get lt' k = Some l"
      by (cases "dict_get lt' k") (auto simp: dict_get_None_iff)
    with out k have "self \<notin> set (transactions l)" by auto
    with l show "\<exists>l. dict_get (lock_table st2) k = Some l \<and> self \<notin> set (transactions l)"
      by (simp add: st2_def)
  qed
  from ab m1 m2 s1 s2 s3 h lk show ?thesis by blast
qed


text \<open>
  The store has 10 under a and nothing under b. Transaction 1 puts 1 under a, 2 under b
  and 3 under a, then aborts: a is 10 again, b has no value, and both locks are free.
\<close>

theorem abort_undoes_puts_witness:
  "put_all ((initial_state :: (string, int) state)\<lparr>store := (\<lambda>_. None)(''a'' := Some 10)\<rparr>) 1
      [(''a'', 1), (''b'', 2), (''a'', 3)] \<noteq> None
   \<and> map_option (\<lambda>(m, s). (m, store s ''a'', store s ''b'', undo_log (handlers s 1),
          acquired_locks (handlers s 1), map (\<lambda>(k, l). (k, transactions l)) (lock_table s)))
        (abort (the (put_all
           ((initial_state :: (string, int) state)\<lparr>store := (\<lambda>_. None)(''a'' := Some 10)\<rparr>) 1
           [(''a'', 1), (''b'', 2), (''a'', 3)])) 1 USER)
      = Some (Msg ''User Abort'', Some 10, None, [], [], [(''a'', []), (''b'', [])])"
  using abort_undoes_puts [where
      st = "(initial_state :: (string, int) state)\<lparr>store := (\<lambda>_. None)(''a'' := Some 10)\<rparr>"
      and self = 1 and kvs = "[(''a'', 1), (''b'', 2), (''a'', 3)]" and am = USER
      and ?st1.0 = "the (put_all
           ((initial_state :: (string, int) state)\<lparr>store := (\<lambda>_. None)(''a'' := Some 10)\<rparr>) 1
           [(''a'', 1), (''b'', 2), (''a'', 3)])"]
  by (simp add: handler_defs abort_unfold release_lock_def grant_request_def not_queued_def
      USER_def)

lemma release_lock_other:
  "self \<notin> set (transactions l) \<Longrightarrow> transactions l \<noteq> [] \<Longrightarrow> release_lock l self = l"
  by (simp add: release_lock_def)

lemma release_loop_frame:
  "release_loop self ks lt = Some lt' \<Longrightarrow> k \<notin> set ks \<Longrightarrow> dict_get lt' k = dict_get lt k"
proof (induction ks arbitrary: lt)
  case Nil
  then show ?case by simp
next
  case (Cons k' ks)
  from Cons.prems(1) obtain l where l: "dict_get lt k' = Some l"
    and rest: "release_loop self ks (dict_set k' (release_lock l self) lt) = Some lt'"
    by (auto split: option.splits)
  from Cons.prems(2) have "k \<noteq> k'" "k \<notin> set ks" by auto
  with Cons.IH [OF rest] show ?case by (simp add: dict_get_set)
qed

lemma release_loop_fixed:
  "release_loop self ks lt = Some lt' \<Longrightarrow> dict_get lt k = Some l \<Longrightarrow>
   release_lock l self = l \<Longrightarrow> dict_get lt' k = Some l"
proof (induction ks arbitrary: lt)
  case Nil
  then show ?case by simp
next
  case (Cons k' ks)
  from Cons.prems(1) obtain l' where l': "dict_get lt k' = Some l'"
    and rest: "release_loop self ks (dict_set k' (release_lock l' self) lt) = Some lt'"
    by (auto split: option.splits)
  have "dict_get (dict_set k' (release_lock l' self) lt) k = Some l"
    using Cons.prems(2,3) l' by (auto simp: dict_get_set)
  from Cons.IH [OF rest this Cons.prems(3)] show ?case .
qed

lemma release_loop_queue_suffix:
  "release_loop self ks lt = Some lt' \<Longrightarrow> dict_get lt k = Some l \<Longrightarrow>
   \<exists>l1 n. dict_get lt' k = Some l1 \<and> the_queue l1 = drop n (the_queue l)"
proof (induction ks arbitrary: lt l)
  case Nil
  then have "dict_get lt' k = Some l \<and> the_queue l = drop 0 (the_queue l)" by simp
  then show ?case by blast
next
  case (Cons k' ks)
  from Cons.prems(1) obtain l' where l': "dict_get lt k' = Some l'"
    and rest: "release_loop self ks (dict_set k' (release_lock l' self) lt) = Some lt'"
    by (auto split: option.splits)
  show ?case
  proof (cases "k = k'")
    case False
    then have "dict_get (dict_set k' (release_lock l' self) lt) k = Some l"
      using Cons.prems(2) by (simp add: dict_get_set)
    from Cons.IH [OF rest this] show ?thesis .
  next
    case True
    with l' Cons.prems(2) have [simp]: "l' = l" by simp
    have g: "dict_get (dict_set k' (release_lock l' self) lt) k = Some (release_lock l self)"
      using True by (simp add: dict_get_set)
    from Cons.IH [OF rest g] obtain l1 n where l1: "dict_get lt' k = Some l1"
      and q: "the_queue l1 = drop n (the_queue (release_lock l self))" by blast
    from release_step_queue [of l self] have "\<exists>j. the_queue (release_lock l self) = drop j (the_queue l)"
    proof
      assume "the_queue (release_lock l self) = the_queue l"
      then have "the_queue (release_lock l self) = drop 0 (the_queue l)" by simp
      then show ?thesis ..
    next
      assume "the_queue l = hd (the_queue l) # the_queue (release_lock l self)"
      then have "the_queue (release_lock l self) = drop 1 (the_queue l)"
        by (metis One_nat_def drop0 drop_Suc_Cons)
      then show ?thesis ..
    qed
    then obtain j where "the_queue (release_lock l self) = drop j (the_queue l)" ..
    with q have "the_queue l1 = drop (n + j) (the_queue l)"
      by (simp add: add.commute)
    with l1 show ?thesis by blast
  qed
qed

lemma release_head_other:
  assumes "transactions l = [t]" and "the_queue l = (self, m) # rs"
  shows "transactions (release_lock l t) = [self]"
    and "mode (release_lock l t) = Some m"
  using release_lock_cases(3) [of t l "(self, m)" rs] assms by simp_all

lemma commit_unfold:
  "commit st self =
     (case release_loop self (acquired_locks (handlers st self)) (lock_table st) of
        None \<Rightarrow> None
      | Some lt' \<Rightarrow>
          Some (Msg ''Transaction Completed'',
                st\<lparr>lock_table := lt',
                   handlers := (handlers st)(self :=
                     (handlers st self)\<lparr>acquired_locks := []\<rparr>)\<rparr>))"
  by (simp add: commit_def release_and_grant_locks_def split: option.splits)

text \<open>
  Claim C10, amended. When every acquired key has a lock in the table,
  \<^verbatim>\<open>release_and_grant_locks\<close>, \<^verbatim>\<open>commit\<close> and \<^verbatim>\<open>abort\<close> return, and all three leave the
  same lock table. A lock whose key is not among the acquired keys is untouched. A lock
  that the transaction does not hold while another transaction does (the lock that a
  transaction aborted while blocked behind another holder waits for) is untouched as
  well, its queue with the entry of the transaction included. No step deletes a queue
  entry: each queue is what is left of the old one after dropping entries at its front,
  which are the ones \<^verbatim>\<open>release_lock\<close> has granted. So afterwards, when the entry of the
  terminated transaction is at the head of the queue and the one holder releases the
  lock, the terminated transaction becomes the holder.
\<close>

theorem release_keeps_queue_entry:
  assumes "set (acquired_locks (handlers st self)) \<subseteq> fst ` set (lock_table st)"
  shows "\<exists>st1 st2 msg st3.
       release_and_grant_locks st self = Some st1
     \<and> commit st self = Some (Msg ''Transaction Completed'', st2)
     \<and> abort st self am = Some (msg, st3)
     \<and> lock_table st2 = lock_table st1 \<and> lock_table st3 = lock_table st1
     \<and> (\<forall>k. k \<notin> set (acquired_locks (handlers st self)) \<longrightarrow>
          dict_get (lock_table st1) k = dict_get (lock_table st) k)
     \<and> (\<forall>k l. dict_get (lock_table st) k = Some l \<and> self \<notin> set (transactions l)
            \<and> transactions l \<noteq> [] \<longrightarrow> dict_get (lock_table st1) k = Some l)
     \<and> (\<forall>k l. dict_get (lock_table st) k = Some l \<longrightarrow>
          (\<exists>l1 n. dict_get (lock_table st1) k = Some l1
             \<and> the_queue l1 = drop n (the_queue l)))
     \<and> (\<forall>k l t m rs. dict_get (lock_table st1) k = Some l \<and> transactions l = [t]
            \<and> the_queue l = (self, m) # rs \<longrightarrow>
          transactions (release_lock l t) = [self] \<and> mode (release_lock l t) = Some m)"
proof -
  from release_loop_total [OF assms] obtain lt' where
    rel: "release_loop self (acquired_locks (handlers st self)) (lock_table st) = Some lt'"
    by blast
  define st1 where "st1 = st\<lparr>lock_table := lt',
      handlers := (handlers st)(self := (handlers st self)\<lparr>acquired_locks := []\<rparr>)\<rparr>"
  define msg :: "'b reply" where
    "msg = (if am = USER then Msg ''User Abort'' else Msg ''Deadlock Abort'')"
  define st3 where "st3 = st\<lparr>lock_table := lt',
      store := fold (\<lambda>e s. store_put s (fst e) (snd e))
                 (rev (undo_log (handlers st self))) (store st),
      handlers := (handlers st)(self :=
        (handlers st self)\<lparr>undo_log := [], acquired_locks := []\<rparr>)\<rparr>"
  have a: "release_and_grant_locks st self = Some st1"
    by (simp add: release_and_grant_locks_def rel st1_def)
  have b: "commit st self = Some (Msg ''Transaction Completed'', st1)"
    by (simp add: commit_unfold rel st1_def)
  have c: "abort st self am = Some (msg, st3)"
    by (simp add: abort_unfold rel st3_def msg_def)
  have t1: "lock_table st1 = lt'" and t3: "lock_table st3 = lock_table st1"
    by (simp_all add: st1_def st3_def)
  have d: "\<forall>k. k \<notin> set (acquired_locks (handlers st self)) \<longrightarrow>
          dict_get (lock_table st1) k = dict_get (lock_table st) k"
    unfolding t1 using release_loop_frame [OF rel] by blast
  have e: "\<forall>k l. dict_get (lock_table st) k = Some l \<and> self \<notin> set (transactions l)
            \<and> transactions l \<noteq> [] \<longrightarrow> dict_get (lock_table st1) k = Some l"
    unfolding t1 using release_loop_fixed [OF rel] release_lock_other by blast
  have f: "\<forall>k l. dict_get (lock_table st) k = Some l \<longrightarrow>
          (\<exists>l1 n. dict_get (lock_table st1) k = Some l1
             \<and> the_queue l1 = drop n (the_queue l))"
    unfolding t1 using release_loop_queue_suffix [OF rel] by blast
  have g: "\<forall>k l t m rs. dict_get (lock_table st1) k = Some l \<and> transactions l = [t]
            \<and> the_queue l = (self, m) # rs \<longrightarrow>
          transactions (release_lock l t) = [self] \<and> mode (release_lock l t) = Some m"
    using release_head_other by blast
  from a b c t3 d e f g show ?thesis by blast
qed


text \<open>
  Transaction 1 holds key a exclusively and transaction 2 is blocked on a put to it. The
  deadlock abort of 2 leaves its entry in the queue of a, and the release by 1 then makes
  the aborted transaction 2 the holder.
\<close>

theorem release_keeps_queue_entry_witness:
  "set (acquired_locks (handlers (snd (perform_put
       (snd (perform_put (initial_state :: (string, int) state) 1 ''a'' 5)) 2 ''a'' 7)) 2))
     \<subseteq> fst ` set (lock_table (snd (perform_put
       (snd (perform_put (initial_state :: (string, int) state) 1 ''a'' 5)) 2 ''a'' 7)))
   \<and> map_option (\<lambda>(m, s). (m, map (\<lambda>(k, l). (k, transactions l, the_queue l)) (lock_table s)))
        (abort (snd (perform_put
           (snd (perform_put (initial_state :: (string, int) state) 1 ''a'' 5)) 2 ''a'' 7))
           2 DEADLOCK)
      = Some (Msg ''Deadlock Abort'', [(''a'', [1], [(2, ExclusiveLock)])])
   \<and> map_option (\<lambda>(m, s). map (\<lambda>(k, l). transactions (release_lock l 1)) (lock_table s))
        (abort (snd (perform_put
           (snd (perform_put (initial_state :: (string, int) state) 1 ''a'' 5)) 2 ''a'' 7))
           2 DEADLOCK)
      = Some [[2]]"
  using release_keeps_queue_entry [where
      st = "snd (perform_put
           (snd (perform_put (initial_state :: (string, int) state) 1 ''a'' 5)) 2 ''a'' 7)"
      and self = 2 and am = DEADLOCK]
  by (simp add: handler_defs abort_unfold release_lock_def grant_request_def the_queue_def
      USER_def DEADLOCK_def)

lemmas run_defs = two_handlers_def TransactionHandler_init_def commit_unfold
  release_lock_def grant_request_def hold_lock_def

lemma granted_unpolled_run_eval:
  "lock_table granted_unpolled_run =
     [(''b'', \<lparr>transactions = [2], mode = Some SharedLock, request_queue = Some []\<rparr>)]"
  "desired_lock (handlers granted_unpolled_run t) =
     (if t = 2 then Some (''b'', SharedLock, Retry_get ''b'') else None)"
  "xid (handlers granted_unpolled_run 2) = 20"
  by (simp_all add: granted_unpolled_run_def handler_defs run_defs)

lemma zero_value_run_eval:
  "lock_table zero_value_run =
     [(''a'', \<lparr>transactions = [2], mode = Some SharedLock, request_queue = Some []\<rparr>)]"
  "desired_lock (handlers zero_value_run 2) = Some (''a'', SharedLock, Retry_get ''a'')"
  "acquired_locks (handlers zero_value_run 2) = []"
  "store zero_value_run ''a'' = Some 0"
  by (simp_all add: zero_value_run_def handler_defs run_defs)

lemmas detect_defs = detect_deadlocks_def get_desired_key_tranc_def
  first_current_transaction_def current_transactions_def dict_get_def

lemma get_desired_key_tranc_cong:
  assumes "\<forall>t. map_option fst (desired_lock (handlers st2 t))
              = map_option fst (desired_lock (handlers st1 t))"
  shows "get_desired_key_tranc st2 l = get_desired_key_tranc st1 l"
proof (cases "first_current_transaction l")
  case None
  then show ?thesis by (simp add: get_desired_key_tranc_def)
next
  case (Some t)
  from assms have "map_option fst (desired_lock (handlers st2 t))
              = map_option fst (desired_lock (handlers st1 t))" by blast
  then show ?thesis
    using Some
    by (cases "desired_lock (handlers st2 t)"; cases "desired_lock (handlers st1 t)")
      (auto simp: get_desired_key_tranc_def)
qed

lemma detect_loop_cong:
  assumes "lock_table st2 = lock_table st1"
    and d: "\<forall>t. map_option fst (desired_lock (handlers st2 t))
              = map_option fst (desired_lock (handlers st1 t))"
    and x: "\<forall>t. xid (handlers st2 t) = xid (handlers st1 t)"
  shows "detect_loop st2 xs = detect_loop st1 xs"
proof (induction xs)
  case Nil
  show ?case by simp
next
  case (Cons e xs)
  obtain key l where e: "e = (key, l)" by (cases e)
  show ?case
    unfolding e
    by (simp add: get_desired_key_tranc_cong [OF d] assms(1) x Cons.IH
        split: option.splits prod.splits)
qed

text \<open>
  Claim C9. \<^verbatim>\<open>detect_deadlocks\<close> reads the state and changes nothing, and what it
  returns is fixed by the lock table (its keys in their order and the holders of each
  lock), the key of every handler's desired lock and the transaction ids: two states
  that agree on these give the same answer, whatever the store, the undo logs, the
  acquired locks or the retry operations are. So do two calls in the same state.
\<close>

theorem detect_deadlocks_deterministic:
  assumes "lock_table st2 = lock_table st1"
    and "\<forall>t. map_option fst (desired_lock (handlers st2 t))
              = map_option fst (desired_lock (handlers st1 t))"
    and "\<forall>t. xid (handlers st2 t) = xid (handlers st1 t)"
  shows "detect_deadlocks st2 = detect_deadlocks st1"
  unfolding detect_deadlocks_def assms(1)
  using detect_loop_cong [OF assms] assms(1) by simp

text \<open>
  The run in which transaction 2 has been granted key b and has not polled yet, and the
  same state with another store: the answer is 20 in both.
\<close>

theorem detect_deadlocks_deterministic_witness:
  "detect_deadlocks (granted_unpolled_run\<lparr>store := (\<lambda>_. Some 7)\<rparr>) = Some 20
   \<and> detect_deadlocks granted_unpolled_run = Some 20
   \<and> store (granted_unpolled_run\<lparr>store := (\<lambda>_. Some 7)\<rparr>) ''c''
       \<noteq> store granted_unpolled_run ''c''"
proof -
  have "store granted_unpolled_run ''c'' = None"
    by (simp add: granted_unpolled_run_def handler_defs run_defs)
  then have ne: "store (granted_unpolled_run\<lparr>store := (\<lambda>_. Some 7)\<rparr>) ''c''
       \<noteq> store granted_unpolled_run ''c''"
    by simp
  have "detect_deadlocks granted_unpolled_run = Some 20"
    by (simp add: detect_defs granted_unpolled_run_eval)
  with ne detect_deadlocks_deterministic
    [of "granted_unpolled_run\<lparr>store := (\<lambda>_. Some 7)\<rparr>" granted_unpolled_run]
  show ?thesis by simp
qed

lemma detect_loop_Some:
  "detect_loop st xs = Some x \<Longrightarrow>
   \<exists>key l dk t ol ot. (key, l) \<in> set xs \<and> get_desired_key_tranc st l = Some (dk, t)
      \<and> dict_get (lock_table st) dk = Some ol
      \<and> get_desired_key_tranc st ol = Some (key, ot)
      \<and> x = min (xid (handlers st t)) (xid (handlers st ot))"
proof (induction xs)
  case Nil
  then show ?case by simp
next
  case (Cons e xs)
  obtain key l where e: "e = (key, l)" by (cases e)
  show ?case
  proof (cases "detect_loop st (e # xs) = detect_loop st xs")
    case True
    with Cons.prems have "detect_loop st xs = Some x" by simp
    from Cons.IH [OF this] show ?thesis by (metis list.set_intros(2))
  next
    case False
    then obtain dk t ol ot where "get_desired_key_tranc st l = Some (dk, t)"
      "dict_get (lock_table st) dk = Some ol"
      "get_desired_key_tranc st ol = Some (key, ot)"
      "detect_loop st (e # xs) = Some (min (xid (handlers st t)) (xid (handlers st ot)))"
      unfolding e by (auto split: option.splits prod.splits if_splits)
    with Cons.prems show ?thesis
      unfolding e by (metis list.set_intros(1) option.inject)
  qed
qed

lemma detect_loop_None:
  "detect_loop st xs = None \<Longrightarrow> (key, l) \<in> set xs \<Longrightarrow>
   get_desired_key_tranc st l = Some (dk, t) \<Longrightarrow> dict_get (lock_table st) dk = Some ol \<Longrightarrow>
   get_desired_key_tranc st ol = Some (odk, ot) \<Longrightarrow> odk \<noteq> key"
  by (induction xs) (auto split: option.splits prod.splits if_splits)

text \<open>
  Claim C4 at a state where the code departs from it. Transaction 1 has committed and
  its release has granted the lock of b to the waiting transaction 2, whose desired lock
  is still set because it has not called \<^verbatim>\<open>check_lock\<close> yet. Nobody waits for
  anybody: the one pending request can be granted as the lock stands. Yet the loop finds
  2 as the first holder of b with desired key b, finds the same again behind that key,
  and returns the transaction id 20 of transaction 2 as a deadlock victim.
\<close>

theorem detect_deadlocks_granted_unpolled:
  "detect_deadlocks granted_unpolled_run = Some 20
   \<and> (\<forall>a b. \<not> spec_waits_for granted_unpolled_run a b)"
  by (simp add: detect_defs granted_unpolled_run_eval spec_waits_for_def can_acquire_lock_def)

lemma check_lock_not_blocked:
  "desired_lock (handlers st self) = None \<Longrightarrow> check_lock truthy st self = Some (None, st)"
  by (simp add: check_lock_def)

lemma check_lock_not_held:
  "desired_lock (handlers st self) = Some (key, m, op) \<Longrightarrow>
   dict_get (lock_table st) key = Some l \<Longrightarrow> \<not> hold_lock l self m \<Longrightarrow>
   check_lock truthy st self = Some (None, st)"
  by (simp add: check_lock_def)

lemma check_lock_held:
  "desired_lock (handlers st self) = Some (key, m, op) \<Longrightarrow>
   dict_get (lock_table st) key = Some l \<Longrightarrow> hold_lock l self m \<Longrightarrow>
   run_retry st self op = (v, st1) \<Longrightarrow>
   check_lock truthy st self =
     Some (v, if truth_value truthy v
              then st1\<lparr>handlers := (handlers st1)(self :=
                         (handlers st1 self)\<lparr>desired_lock := None\<rparr>)\<rparr>
              else st1)"
  by (simp add: check_lock_def)

text \<open>
  Claim C5 at a state where the code departs from it. Transaction 2 waited to read key a,
  which holds the value 0, and now holds the lock in the desired shared mode.
  \<^verbatim>\<open>check_lock\<close> runs the retry and returns the value 0, a result that is not
  \<^verbatim>\<open>None\<close>; but 0 is falsy for \<^verbatim>\<open>if v:\<close>, so the desired lock is not cleared and
  the transaction stays blocked on a.
\<close>

theorem check_lock_zero_value:
  "map_option (\<lambda>(v, s). (v, desired_lock (handlers s 2)))
     (check_lock (\<lambda>v. v \<noteq> 0) zero_value_run 2)
   = Some (Some (Val 0), Some (''a'', SharedLock, Retry_get ''a''))"
  by (simp add: check_lock_def zero_value_run_eval hold_lock_def handler_defs)

lemma shared_run_eval:
  "lock_table shared_run =
     [(''a'', \<lparr>transactions = [1, 2], mode = Some SharedLock, request_queue = None\<rparr>)]"
  "store shared_run = (\<lambda>_. None)"
  "handlers shared_run (Suc 0) =
     \<lparr>acquired_locks = [''a''], desired_lock = None, xid = 10, undo_log = []\<rparr>"
  "handlers shared_run 2 =
     \<lparr>acquired_locks = [''a''], desired_lock = None, xid = 20, undo_log = []\<rparr>"
  by (simp_all add: shared_run_def handler_defs run_defs)

lemma refused_twice_run_eval:
  "lock_table refused_twice_run =
     [(''a'', \<lparr>transactions = [1], mode = Some SharedLock,
              request_queue = Some [(2, ExclusiveLock), (2, ExclusiveLock)]\<rparr>)]"
  "store refused_twice_run = (\<lambda>_. None)"
  "handlers refused_twice_run (Suc 0) =
     \<lparr>acquired_locks = [''a''], desired_lock = None, xid = 10, undo_log = []\<rparr>"
  "handlers refused_twice_run 2 =
     \<lparr>acquired_locks = [''a''], desired_lock = Some (''a'', ExclusiveLock, Retry_put ''a'' 7),
      xid = 20, undo_log = []\<rparr>"
  by (simp_all add: refused_twice_run_def perform_put_def dict_get_def request_lock_def
      can_acquire_lock_def append_request_def store_get_def store_put_def Let_def
      shared_run_eval)

lemma regranted_run_eval:
  "lock_table regranted_run =
     [(''a'', \<lparr>transactions = [2], mode = Some ExclusiveLock,
              request_queue = Some [(2, ExclusiveLock)]\<rparr>)]"
  "store regranted_run = (\<lambda>_. None)"
  "handlers regranted_run 2 =
     \<lparr>acquired_locks = [''a''], desired_lock = Some (''a'', ExclusiveLock, Retry_put ''a'' 7),
      xid = 20, undo_log = []\<rparr>"
  by (simp_all add: regranted_run_def commit_unfold dict_get_def release_lock_def
      grant_request_def refused_twice_run_eval)

text \<open>
  Claim C10, as stated, fails. Transactions 1 and 2 share the lock of a; 2 is refused the
  exclusive lock twice and so has two entries in the queue; the commit of 1 grants the
  first of them. Transaction 2 has not polled, it is still blocked on a, and it holds
  the lock while its second entry waits. Its abort releases the lock, which grants the
  head of the queue: the own entry of 2 is taken out of the queue, and the aborted
  transaction holds the lock again.
\<close>

theorem abort_pops_own_entry_counterexample:
  "desired_lock (handlers regranted_run 2) = Some (''a'', ExclusiveLock, Retry_put ''a'' 7)
   \<and> lock_table regranted_run
       = [(''a'', \<lparr>transactions = [2], mode = Some ExclusiveLock,
                  request_queue = Some [(2, ExclusiveLock)]\<rparr>)]
   \<and> map_option (lock_table \<circ> snd) (abort regranted_run 2 DEADLOCK)
       = Some [(''a'', \<lparr>transactions = [2], mode = Some ExclusiveLock,
                        request_queue = Some []\<rparr>)]"
  by (simp add: regranted_run_eval abort_unfold dict_get_def release_lock_def
      grant_request_def)

end
